theory Spec2Isabelle
  imports Main "HOL-Library.AList"
begin

text \<open>
  The repository holds two versions of one WebSocket relay that pairs two players in a
  room and forwards their moves: \<open>server.js\<close>, and a second server file whose name is
  not known. Both are embedded here, function by function; the definitions of the
  first carry the prefix \<open>srv\<close> where the source has no name for them (the handlers),
  those of the second the prefix \<open>p0\<close>.
\<close>

section \<open>JavaScript values seen by the relay\<close>

text \<open>
  A JavaScript string is a sequence of UTF-16 code units. Room codes are compared,
  trimmed and used as \<open>Map\<close> keys as such sequences.
\<close>

type_synonym jsstring = "nat list"

definition units :: "string \<Rightarrow> jsstring" where
  "units s = map of_char s"

text \<open>
  The result of \<open>JSON.parse\<close>. A number is carried by the text that \<open>String(n)\<close>
  gives for it, except negative zero, which \<open>String\<close> writes as \<open>0\<close> and which is
  carried as \<open>-0\<close>; a number beyond the range of a double is parsed as \<open>Infinity\<close> or
  \<open>-Infinity\<close>, and \<open>JSON.parse\<close> never yields \<open>NaN\<close>. An object is carried by its own
  properties in insertion order. \<open>undefined\<close> is \<open>None\<close> of \<open>json option\<close>.
\<close>

datatype json =
    JNull
  | JBool bool
  | JNum jsstring
  | JStr jsstring
  | JArr "json list"
  | JObj "(jsstring \<times> json) list"

type_synonym jsval = "json option"

datatype js_error = TypeError

fun truthy :: "jsval \<Rightarrow> bool" where
  "truthy None = False"
| "truthy (Some JNull) = False"
| "truthy (Some (JBool b)) = b"
| "truthy (Some (JNum n)) = (n \<noteq> units ''0'' \<and> n \<noteq> units ''-0'')"
| "truthy (Some (JStr s)) = (s \<noteq> [])"
| "truthy (Some (JArr xs)) = True"
| "truthy (Some (JObj kvs)) = True"

text \<open>Property read \<open>m.k\<close> for the keys \<open>t\<close>, \<open>room\<close> and \<open>data\<close>, which no prototype defines.\<close>

fun get_prop :: "jsstring \<Rightarrow> json \<Rightarrow> jsval" where
  "get_prop k (JObj kvs) = map_of kvs k"
| "get_prop k v = None"

text \<open>
  \<open>String(v)\<close>. An array joins its elements with a comma, \<open>null\<close> elements giving the
  empty string. A parsed object with an own \<open>toString\<close> property (never callable) has
  no primitive value: the conversion throws a \<open>TypeError\<close>.
\<close>

fun js_String :: "json \<Rightarrow> js_error + jsstring"
  and js_join :: "json list \<Rightarrow> js_error + jsstring" where
  "js_String JNull = Inr (units ''null'')"
| "js_String (JBool b) = Inr (units (if b then ''true'' else ''false''))"
| "js_String (JNum n) = Inr (if n = units ''-0'' then units ''0'' else n)"
| "js_String (JStr s) = Inr s"
| "js_String (JArr xs) = js_join xs"
| "js_String (JObj kvs) =
     (if units ''toString'' \<in> fst ` set kvs then Inl TypeError
      else Inr (units ''[object Object]''))"
| "js_join [] = Inr []"
| "js_join (x # xs) =
     (case (if x = JNull then Inr [] else js_String x) of
        Inl e \<Rightarrow> Inl e
      | Inr a \<Rightarrow>
          (if xs = [] then Inr a
           else (case js_join xs of
                   Inl e \<Rightarrow> Inl e
                 | Inr b \<Rightarrow> Inr (a @ units '','' @ b))))"

text \<open>\<open>String.prototype.trim\<close>: white space and line terminators of ECMAScript.\<close>

definition is_ws :: "nat \<Rightarrow> bool" where
  "is_ws c \<longleftrightarrow>
     c \<in> {9, 10, 11, 12, 13, 32, 160, 5760, 8232, 8233, 8239, 8287, 12288, 65279}
     \<or> (8192 \<le> c \<and> c \<le> 8202)"

definition trim :: "jsstring \<Rightarrow> jsstring" where
  "trim s = rev (dropWhile is_ws (rev (dropWhile is_ws s)))"

text \<open>\<open>String(v || '')\<close>, as both \<open>move\<close>, \<open>reset\<close> and \<open>join\<close> of the second relay read the room.\<close>

definition String_or_empty :: "jsval \<Rightarrow> js_error + jsstring" where
  "String_or_empty v = (case v of Some j \<Rightarrow> (if truthy v then js_String j else Inr []) | None \<Rightarrow> Inr [])"

text \<open>
  \<open>JSON.stringify\<close> of a parsed value, as the recipient's \<open>JSON.parse\<close> reads it back.
  \<open>JSON.stringify\<close> writes \<open>null\<close> for \<open>Infinity\<close> and \<open>-Infinity\<close> and \<open>0\<close> for negative
  zero, also inside arrays and objects; every other parsed value is written as it is
  (a \<open>toJSON\<close> property of a parsed object is not callable and is ignored).
\<close>

fun json_wire :: "json \<Rightarrow> json"
  and json_wire_list :: "json list \<Rightarrow> json list"
  and json_wire_props :: "(jsstring \<times> json) list \<Rightarrow> (jsstring \<times> json) list" where
  "json_wire (JNum n) =
     (if n = units ''Infinity'' \<or> n = units ''-Infinity'' then JNull
      else if n = units ''-0'' then JNum (units ''0'')
      else JNum n)"
| "json_wire (JArr xs) = JArr (json_wire_list xs)"
| "json_wire (JObj kvs) = JObj (json_wire_props kvs)"
| "json_wire JNull = JNull"
| "json_wire (JBool b) = JBool b"
| "json_wire (JStr s) = JStr s"
| "json_wire_list [] = []"
| "json_wire_list (x # xs) = json_wire x # json_wire_list xs"
| "json_wire_props [] = []"
| "json_wire_props ((k, v) # kvs) = (k, json_wire v) # json_wire_props kvs"

text \<open>A parsed value without \<open>Infinity\<close>, \<open>-Infinity\<close> and negative zero.\<close>

fun writes_back :: "json \<Rightarrow> bool"
  and writes_back_list :: "json list \<Rightarrow> bool"
  and writes_back_props :: "(jsstring \<times> json) list \<Rightarrow> bool" where
  "writes_back (JNum n) \<longleftrightarrow>
     n \<noteq> units ''Infinity'' \<and> n \<noteq> units ''-Infinity'' \<and> n \<noteq> units ''-0''"
| "writes_back (JArr xs) \<longleftrightarrow> writes_back_list xs"
| "writes_back (JObj kvs) \<longleftrightarrow> writes_back_props kvs"
| "writes_back JNull \<longleftrightarrow> True"
| "writes_back (JBool b) \<longleftrightarrow> True"
| "writes_back (JStr s) \<longleftrightarrow> True"
| "writes_back_list [] \<longleftrightarrow> True"
| "writes_back_list (x # xs) \<longleftrightarrow> writes_back x \<and> writes_back_list xs"
| "writes_back_props [] \<longleftrightarrow> True"
| "writes_back_props ((k, v) # kvs) \<longleftrightarrow> writes_back v \<and> writes_back_props kvs"

section \<open>Data model\<close>

type_synonym conn = nat

datatype side = SideX | SideO

datatype err = invalid_json | missing_room | room_full | not_joined

text \<open>
  The messages the relay sends, as \<open>JSON.stringify\<close> writes them. A side is \<open>null\<close>
  (\<open>None\<close>) when \<open>assignSide\<close> found none; \<open>from\<close> of a move is \<open>undefined\<close>, and so
  absent (outer \<open>None\<close>), when the sender has no entry in \<open>sides\<close>; the data of a move
  is the parsed data of the message as \<open>JSON.stringify\<close> writes it (\<open>json_wire\<close>), absent when
  the message has none. Room codes are strings and sides are constants, which are written as
  they are.
\<close>

datatype out_msg =
    Joined jsstring "side option"
  | ErrorMsg err
  | PeerJoined "side option"
  | MoveMsg "side option option" jsval
  | ResetMsg
  | PeerLeft "jsstring option"

datatype action = Send conn out_msg | Ping conn | Terminate conn

text \<open>A room: \<open>clients\<close> is a \<open>Set\<close>, \<open>sides\<close> a \<open>Map\<close>, both in insertion order.\<close>

record room =
  clients :: "conn list"
  sides :: "(conn \<times> side option) list"

type_synonym registry = "(jsstring \<times> room) list"

text \<open>
  The fields of a connection object: \<open>isAlive\<close>, \<open>readyState\<close> (1 is OPEN, 2 CLOSING,
  3 CLOSED), and \<open>currentRoom\<close>, which only \<open>server.js\<close> uses.
\<close>

record wsobj =
  isAlive :: bool
  currentRoom :: "jsstring option"
  readyState :: nat

record state =
  rooms :: registry
  wss_clients :: "conn list"
  objs :: "conn \<Rightarrow> wsobj"
  next_conn :: conn

definition empty_room :: room where
  "empty_room = \<lparr>clients = [], sides = []\<rparr>"

definition set_add :: "'a \<Rightarrow> 'a list \<Rightarrow> 'a list" where
  "set_add c cs = (if c \<in> set cs then cs else cs @ [c])"

definition is_open :: "(conn \<Rightarrow> wsobj) \<Rightarrow> conn \<Rightarrow> bool" where
  "is_open os c \<longleftrightarrow> readyState (os c) = 1"

section \<open>Functions shared by both relays\<close>

text \<open>\<open>getRoom(code)\<close>: the registry after the call, and the room object stored under \<open>code\<close>.\<close>

definition getRoom :: "jsstring \<Rightarrow> registry \<Rightarrow> registry \<times> room" where
  "getRoom code rs =
     (case map_of rs code of
        Some r \<Rightarrow> (rs, r)
      | None \<Rightarrow> (rs @ [(code, empty_room)], empty_room))"

section \<open>The relay of server.js\<close>

definition sideFor :: "room \<Rightarrow> conn \<Rightarrow> side option option" where
  "sideFor r ws = map_of (sides r) ws"

definition otherClient :: "room \<Rightarrow> conn \<Rightarrow> conn option" where
  "otherClient r ws = find (\<lambda>c. c \<noteq> ws) (clients r)"

definition assignSide :: "room \<Rightarrow> conn \<Rightarrow> side option" where
  "assignSide r ws =
     (if Some SideX \<notin> snd ` set (sides r) then Some SideX
      else if Some SideO \<notin> snd ` set (sides r) then Some SideO
      else None)"

definition heartbeatSetup :: "conn \<Rightarrow> (conn \<Rightarrow> wsobj) \<Rightarrow> (conn \<Rightarrow> wsobj)" where
  "heartbeatSetup ws os = os(ws := (os ws)\<lparr>isAlive := True\<rparr>)"

definition on_pong :: "conn \<Rightarrow> state \<Rightarrow> state" where
  "on_pong ws s = s\<lparr>objs := (objs s)(ws := (objs s ws)\<lparr>isAlive := True\<rparr>)\<rparr>"

text \<open>The interval callback: \<open>forEach\<close> visits every tracked connection.\<close>

fun srv_sweep_each :: "conn list \<Rightarrow> (conn \<Rightarrow> wsobj) \<Rightarrow> (conn \<Rightarrow> wsobj) \<times> action list" where
  "srv_sweep_each [] os = (os, [])"
| "srv_sweep_each (ws # rest) os =
     (if \<not> isAlive (os ws) then
        (case srv_sweep_each rest os of (os', acts) \<Rightarrow> (os', Terminate ws # acts))
      else
        (case srv_sweep_each rest (os(ws := (os ws)\<lparr>isAlive := False\<rparr>)) of
           (os', acts) \<Rightarrow> (os', Ping ws # acts)))"

definition srv_sweep :: "state \<Rightarrow> state \<times> action list" where
  "srv_sweep s =
     (case srv_sweep_each (wss_clients s) (objs s) of
        (os', acts) \<Rightarrow> (s\<lparr>objs := os'\<rparr>, acts))"

text \<open>
  The \<open>connection\<close> handler, for the connection object that the library has just
  accepted (OPEN) and added to \<open>wss.clients\<close>; connection objects are told apart by
  a number, a new one taking the next.
\<close>

definition srv_on_connection :: "state \<Rightarrow> state" where
  "srv_on_connection s =
     (let ws = next_conn s;
          os1 = (objs s)(ws := (objs s ws)\<lparr>readyState := 1\<rparr>);
          os2 = heartbeatSetup ws os1;
          os3 = os2(ws := (os2 ws)\<lparr>currentRoom := None\<rparr>)
      in s\<lparr>wss_clients := set_add ws (wss_clients s), objs := os3, next_conn := Suc ws\<rparr>)"

text \<open>The \<open>join\<close> branch, after the room code has passed its check.\<close>

definition srv_join :: "conn \<Rightarrow> jsstring \<Rightarrow> state \<Rightarrow> state \<times> action list" where
  "srv_join ws code s =
     (case getRoom code (rooms s) of (rs1, r) \<Rightarrow>
        if length (clients r) \<ge> 2 then (s\<lparr>rooms := rs1\<rparr>, [Send ws (ErrorMsg room_full)])
        else
          (let r1 = r\<lparr>clients := set_add ws (clients r)\<rparr>;
               sd = assignSide r1 ws;
               r2 = r1\<lparr>sides := AList.update ws sd (sides r1)\<rparr>;
               os' = (objs s)(ws := (objs s ws)\<lparr>currentRoom := Some code\<rparr>);
               peer = otherClient r2 ws
           in (s\<lparr>rooms := AList.update code r2 rs1, objs := os'\<rparr>,
               Send ws (Joined code sd) #
               (case peer of
                  Some p \<Rightarrow> (if is_open os' p then [Send p (PeerJoined sd)] else [])
                | None \<Rightarrow> []))))"

text \<open>
  The message handler. \<open>raw\<close> is the result of \<open>JSON.parse\<close>, \<open>None\<close> when it throws.
  Destructuring \<open>null\<close> throws a \<open>TypeError\<close> that nothing catches.
\<close>

definition srv_on_message :: "conn \<Rightarrow> json option \<Rightarrow> state \<Rightarrow> js_error + state \<times> action list" where
  "srv_on_message ws raw s =
     (case raw of
        None \<Rightarrow> Inr (s, [Send ws (ErrorMsg invalid_json)])
      | Some msg \<Rightarrow>
          if msg = JNull then Inl TypeError
          else
            (let t = get_prop (units ''t'') msg; code = get_prop (units ''room'') msg in
             if t = Some (JStr (units ''join'')) then
               (case code of
                  Some (JStr c) \<Rightarrow>
                    (if truthy code then Inr (srv_join ws c s)
                     else Inr (s, [Send ws (ErrorMsg missing_room)]))
                | _ \<Rightarrow> Inr (s, [Send ws (ErrorMsg missing_room)]))
             else
               (case code of
                  Some (JStr c) \<Rightarrow>
                    (if \<not> truthy code \<or> currentRoom (objs s ws) \<noteq> Some c
                     then Inr (s, [Send ws (ErrorMsg not_joined)])
                     else
                       (case getRoom c (rooms s) of (rs1, r) \<Rightarrow>
                          (let peer = otherClient r ws; from = sideFor r ws in
                           Inr (s\<lparr>rooms := rs1\<rparr>,
                                (case peer of
                                   Some p \<Rightarrow>
                                     (if t = Some (JStr (units ''move'')) \<and> is_open (objs s) p
                                      then [Send p (MoveMsg from
                                                     (map_option json_wire (get_prop (units ''data'') msg)))]
                                      else if t = Some (JStr (units ''reset'')) \<and> is_open (objs s) p
                                      then [Send p ResetMsg]
                                      else [])
                                 | None \<Rightarrow> [])))))
                | _ \<Rightarrow> Inr (s, [Send ws (ErrorMsg not_joined)]))))"

definition srv_on_close :: "conn \<Rightarrow> state \<Rightarrow> state \<times> action list" where
  "srv_on_close ws s =
     (case currentRoom (objs s ws) of
        None \<Rightarrow> (s, [])
      | Some code \<Rightarrow>
          (if code = [] then (s, [])
           else
             (case getRoom code (rooms s) of (rs1, r) \<Rightarrow>
                (let peer = otherClient r ws;
                     r' = r\<lparr>clients := removeAll ws (clients r),
                            sides := AList.delete ws (sides r)\<rparr>
                 in (s\<lparr>rooms := (if clients r' = [] then AList.delete code rs1
                                  else AList.update code r' rs1)\<rparr>,
                     (case peer of
                        Some p \<Rightarrow> (if is_open (objs s) p then [Send p (PeerLeft None)] else [])
                      | None \<Rightarrow> []))))))"

section \<open>The relay of the second server file\<close>

definition chooseSide :: "room \<Rightarrow> side option" where
  "chooseSide roomObj =
     (if Some SideX \<notin> snd ` set (sides roomObj) then Some SideX
      else if Some SideO \<notin> snd ` set (sides roomObj) then Some SideO
      else None)"

definition broadcast :: "(conn \<Rightarrow> wsobj) \<Rightarrow> room \<Rightarrow> out_msg \<Rightarrow> conn option \<Rightarrow> action list" where
  "broadcast os roomObj msg except =
     map (\<lambda>c. Send c msg) (filter (\<lambda>c. is_open os c \<and> Some c \<noteq> except) (clients roomObj))"

text \<open>What \<open>r.clients.delete(ws); r.sides.delete(ws)\<close> leave of a room object.\<close>

definition evict :: "conn \<Rightarrow> room \<Rightarrow> room" where
  "evict ws r = r\<lparr>clients := removeAll ws (clients r), sides := AList.delete ws (sides r)\<rparr>"

text \<open>
  \<open>leaveEverywhere(ws)\<close>: the entries are visited in insertion order, and the loop
  breaks at the first room that held \<open>ws\<close>.
\<close>

fun leave_loop :: "(conn \<Rightarrow> wsobj) \<Rightarrow> conn \<Rightarrow> (jsstring \<times> room) list \<Rightarrow> registry
                     \<Rightarrow> registry \<times> action list" where
  "leave_loop os ws [] rs = (rs, [])"
| "leave_loop os ws ((code, r) # es) rs =
     (if ws \<in> set (clients r) then
        (if clients (evict ws r) = [] then AList.delete code rs
         else AList.update code (evict ws r) rs,
         broadcast os (evict ws r) (PeerLeft (Some code)) None)
      else leave_loop os ws es rs)"

definition leaveEverywhere :: "(conn \<Rightarrow> wsobj) \<Rightarrow> conn \<Rightarrow> registry \<Rightarrow> registry \<times> action list" where
  "leaveEverywhere os ws rs = leave_loop os ws rs rs"

text \<open>
  The \<open>join\<close> branch for a non-empty code. \<open>r\<close> is the object that \<open>getRoom\<close> returned;
  \<open>leaveEverywhere\<close> changes it in place when it held \<open>ws\<close>, and removes it from the
  registry when that emptied it. The handler goes on with the same object, which
  then is no longer the registry's: the later \<open>add\<close> and \<open>set\<close> reach the registry only
  while \<open>code\<close> still is a key.
\<close>

definition p0_join :: "conn \<Rightarrow> jsstring \<Rightarrow> state \<Rightarrow> state \<times> action list" where
  "p0_join ws code s =
     (case getRoom code (rooms s) of (rs1, r0) \<Rightarrow>
      case leaveEverywhere (objs s) ws rs1 of (rs2, left) \<Rightarrow>
        (let r = (case map_of rs2 code of Some r' \<Rightarrow> r' | None \<Rightarrow> evict ws r0);
             sd = chooseSide r
         in if sd = None then (s\<lparr>rooms := rs2\<rparr>, left @ [Send ws (ErrorMsg room_full)])
            else
              (let r2 = r\<lparr>clients := set_add ws (clients r),
                          sides := AList.update ws sd (sides r)\<rparr>
               in (s\<lparr>rooms := (if map_of rs2 code = None then rs2
                                 else AList.update code r2 rs2)\<rparr>,
                   left @ [Send ws (Joined code sd)]
                        @ broadcast (objs s) r2 (PeerJoined sd) (Some ws)))))"

text \<open>The message handler; a frame that does not parse is dropped.\<close>

definition p0_on_message :: "conn \<Rightarrow> json option \<Rightarrow> state \<Rightarrow> js_error + state \<times> action list" where
  "p0_on_message ws raw s =
     (case raw of
        None \<Rightarrow> Inr (s, [])
      | Some m \<Rightarrow>
          (let t = (if truthy (Some m) then get_prop (units ''t'') m else None) in
           if \<not> truthy t then Inr (s, [])
           else if t = Some (JStr (units ''join'')) then
             (case String_or_empty (get_prop (units ''room'') m) of
                Inl e \<Rightarrow> Inl e
              | Inr str \<Rightarrow>
                  (if trim str = [] then Inr (s, [Send ws (ErrorMsg missing_room)])
                   else Inr (p0_join ws (trim str) s)))
           else if t = Some (JStr (units ''move'')) then
             (case String_or_empty (get_prop (units ''room'') m) of
                Inl e \<Rightarrow> Inl e
              | Inr str \<Rightarrow>
                  (case map_of (rooms s) (trim str) of
                     None \<Rightarrow> Inr (s, [])
                   | Some r \<Rightarrow>
                       (if ws \<notin> set (clients r) then Inr (s, [])
                        else Inr (s, broadcast (objs s) r
                                       (MoveMsg (map_of (sides r) ws)
                                          (map_option json_wire (get_prop (units ''data'') m)))
                                       (Some ws)))))
           else if t = Some (JStr (units ''reset'')) then
             (case String_or_empty (get_prop (units ''room'') m) of
                Inl e \<Rightarrow> Inl e
              | Inr str \<Rightarrow>
                  (case map_of (rooms s) (trim str) of
                     None \<Rightarrow> Inr (s, [])
                   | Some r \<Rightarrow>
                       (if ws \<notin> set (clients r) then Inr (s, [])
                        else Inr (s, broadcast (objs s) r ResetMsg (Some ws)))))
           else Inr (s, [])))"

text \<open>The \<open>close\<close> and the \<open>error\<close> handler are both \<open>leaveEverywhere(ws)\<close>.\<close>

definition p0_on_close :: "conn \<Rightarrow> state \<Rightarrow> state \<times> action list" where
  "p0_on_close ws s =
     (case leaveEverywhere (objs s) ws (rooms s) of (rs', acts) \<Rightarrow> (s\<lparr>rooms := rs'\<rparr>, acts))"

definition p0_on_connection :: "state \<Rightarrow> state" where
  "p0_on_connection s =
     (let ws = next_conn s;
          os1 = (objs s)(ws := (objs s ws)\<lparr>readyState := 1\<rparr>);
          os2 = os1(ws := (os1 ws)\<lparr>isAlive := True\<rparr>)
      in s\<lparr>wss_clients := set_add ws (wss_clients s), objs := os2, next_conn := Suc ws\<rparr>)"

text \<open>
  The interval callback: a \<open>for-of\<close> loop whose \<open>return ws.terminate()\<close> leaves the
  callback, so the connections after the first dead one are not visited.
\<close>

fun p0_sweep_loop :: "conn list \<Rightarrow> (conn \<Rightarrow> wsobj) \<Rightarrow> (conn \<Rightarrow> wsobj) \<times> action list" where
  "p0_sweep_loop [] os = (os, [])"
| "p0_sweep_loop (ws # rest) os =
     (if isAlive (os ws) = False then (os, [Terminate ws])
      else
        (case p0_sweep_loop rest (os(ws := (os ws)\<lparr>isAlive := False\<rparr>)) of
           (os', acts) \<Rightarrow> (os', Ping ws # acts)))"

definition p0_sweep :: "state \<Rightarrow> state \<times> action list" where
  "p0_sweep s =
     (case p0_sweep_loop (wss_clients s) (objs s) of
        (os', acts) \<Rightarrow> (s\<lparr>objs := os'\<rparr>, acts))"

section \<open>The transport and the runs of a relay\<close>

text \<open>
  What the WebSocket library does around the handlers. A connection is tracked (in
  \<open>wss.clients\<close>) from its \<open>connection\<close> event to its \<open>close\<close> event, and the library
  emits \<open>message\<close>, \<open>pong\<close> and \<open>error\<close> only for a tracked connection and \<open>close\<close>
  once. \<open>Closing\<close> is the moment a connection stops being OPEN (a close frame, a
  broken socket, a \<open>terminate()\<close>) before its \<open>close\<close> event. \<open>server.js\<close> registers no
  \<open>error\<close> listener, so an \<open>error\<close> event ends the process there, as an uncaught
  \<open>TypeError\<close> does in either relay: a run has no state after it.
\<close>

datatype event =
    Connection
  | Message conn "json option"
  | Pong conn
  | Closing conn
  | Closed conn
  | Errored conn
  | Tick

definition init :: state where
  "init = \<lparr>rooms = [], wss_clients = [],
            objs = (\<lambda>c. \<lparr>isAlive = False, currentRoom = None, readyState = 0\<rparr>),
            next_conn = 0\<rparr>"

definition set_readyState :: "conn \<Rightarrow> nat \<Rightarrow> state \<Rightarrow> state" where
  "set_readyState ws n s = s\<lparr>objs := (objs s)(ws := (objs s ws)\<lparr>readyState := n\<rparr>)\<rparr>"

definition untrack :: "conn \<Rightarrow> state \<Rightarrow> state" where
  "untrack ws s = (set_readyState ws 3 s)\<lparr>wss_clients := removeAll ws (wss_clients s)\<rparr>"

fun srv_step :: "state \<Rightarrow> event \<Rightarrow> (state \<times> action list) option" where
  "srv_step s Connection = Some (srv_on_connection s, [])"
| "srv_step s (Message ws raw) =
     (if ws \<in> set (wss_clients s) then
        (case srv_on_message ws raw s of Inl e \<Rightarrow> None | Inr x \<Rightarrow> Some x)
      else None)"
| "srv_step s (Pong ws) = (if ws \<in> set (wss_clients s) then Some (on_pong ws s, []) else None)"
| "srv_step s (Closing ws) =
     (if ws \<in> set (wss_clients s) then Some (set_readyState ws 2 s, []) else None)"
| "srv_step s (Closed ws) =
     (if ws \<in> set (wss_clients s) then Some (srv_on_close ws (untrack ws s)) else None)"
| "srv_step s (Errored ws) = None"
| "srv_step s Tick = Some (srv_sweep s)"

fun p0_step :: "state \<Rightarrow> event \<Rightarrow> (state \<times> action list) option" where
  "p0_step s Connection = Some (p0_on_connection s, [])"
| "p0_step s (Message ws raw) =
     (if ws \<in> set (wss_clients s) then
        (case p0_on_message ws raw s of Inl e \<Rightarrow> None | Inr x \<Rightarrow> Some x)
      else None)"
| "p0_step s (Pong ws) = (if ws \<in> set (wss_clients s) then Some (on_pong ws s, []) else None)"
| "p0_step s (Closing ws) =
     (if ws \<in> set (wss_clients s) then Some (set_readyState ws 2 s, []) else None)"
| "p0_step s (Closed ws) =
     (if ws \<in> set (wss_clients s) then Some (p0_on_close ws (untrack ws s)) else None)"
| "p0_step s (Errored ws) =
     (if ws \<in> set (wss_clients s) then Some (p0_on_close ws s) else None)"
| "p0_step s Tick = Some (p0_sweep s)"

text \<open>A run from a state: the state reached and everything sent on the way, in order.\<close>

fun exec :: "(state \<Rightarrow> event \<Rightarrow> (state \<times> action list) option) \<Rightarrow> state \<Rightarrow> event list
               \<Rightarrow> (state \<times> action list) option" where
  "exec step s [] = Some (s, [])"
| "exec step s (e # es) =
     (case step s e of
        None \<Rightarrow> None
      | Some (s1, a1) \<Rightarrow>
          (case exec step s1 es of
             None \<Rightarrow> None
           | Some (s2, a2) \<Rightarrow> Some (s2, a1 @ a2)))"

definition srv_run :: "event list \<Rightarrow> (state \<times> action list) option" where
  "srv_run evs = exec srv_step init evs"

definition p0_run :: "event list \<Rightarrow> (state \<times> action list) option" where
  "p0_run evs = exec p0_step init evs"

text \<open>What a connection has been sent, in order.\<close>

fun received :: "conn \<Rightarrow> action list \<Rightarrow> out_msg list" where
  "received c [] = []"
| "received c (Send c' m # acts) = (if c' = c then m # received c acts else received c acts)"
| "received c (a # acts) = received c acts"

text \<open>The client messages of the protocol, as parsed.\<close>

definition join_msg :: "jsstring \<Rightarrow> json" where
  "join_msg c = JObj [(units ''t'', JStr (units ''join'')), (units ''room'', JStr c)]"

definition move_msg :: "jsstring \<Rightarrow> json \<Rightarrow> json" where
  "move_msg c d =
     JObj [(units ''t'', JStr (units ''move'')), (units ''room'', JStr c), (units ''data'', d)]"

definition reset_msg :: "jsstring \<Rightarrow> json" where
  "reset_msg c = JObj [(units ''t'', JStr (units ''reset'')), (units ''room'', JStr c)]"

section \<open>The room invariant\<close>

text \<open>
  A room of the registry: one or two members, a role for exactly the members, every
  role one of the two sides, no role given twice.
\<close>

definition room_ok :: "room \<Rightarrow> bool" where
  "room_ok r \<longleftrightarrow>
     clients r \<noteq> [] \<and> length (clients r) \<le> 2 \<and> distinct (clients r)
     \<and> distinct (map fst (sides r)) \<and> fst ` set (sides r) = set (clients r)
     \<and> None \<notin> snd ` set (sides r) \<and> distinct (map snd (sides r))"

definition registry_ok :: "registry \<Rightarrow> bool" where
  "registry_ok rs \<longleftrightarrow> distinct (map fst rs) \<and> (\<forall>r \<in> snd ` set rs. room_ok r)"

text \<open>The same without the demand that the room has a member.\<close>

definition room_wf :: "room \<Rightarrow> bool" where
  "room_wf r \<longleftrightarrow>
     length (clients r) \<le> 2 \<and> distinct (clients r)
     \<and> distinct (map fst (sides r)) \<and> fst ` set (sides r) = set (clients r)
     \<and> None \<notin> snd ` set (sides r) \<and> distinct (map snd (sides r))"

text \<open>What \<open>clients.add(ws); sides.set(ws, side)\<close> make of a room object, for the side that
  \<open>chooseSide\<close> (or \<open>assignSide\<close>) finds.\<close>

definition admit :: "conn \<Rightarrow> room \<Rightarrow> room" where
  "admit ws r = r\<lparr>clients := set_add ws (clients r), sides := AList.update ws (chooseSide r) (sides r)\<rparr>"

text \<open>The first room of the registry that holds a connection, in insertion order.\<close>

definition room_of :: "registry \<Rightarrow> conn \<Rightarrow> (jsstring \<times> room) option" where
  "room_of rs ws = find (\<lambda>p. ws \<in> set (clients (snd p))) rs"

text \<open>No connection is a member of two registered rooms.\<close>

definition single_room :: "registry \<Rightarrow> bool" where
  "single_room rs \<longleftrightarrow>
     (\<forall>p \<in> set rs. \<forall>q \<in> set rs. \<forall>ws \<in> set (clients (snd p)).
        ws \<in> set (clients (snd q)) \<longrightarrow> fst p = fst q)"

text \<open>Membership by the registry: the connection is in the member set of the room under the code.\<close>

definition member_of :: "registry \<Rightarrow> jsstring \<Rightarrow> conn \<Rightarrow> bool" where
  "member_of rs code ws \<longleftrightarrow>
     (case map_of rs code of None \<Rightarrow> False | Some r \<Rightarrow> ws \<in> set (clients r))"

text \<open>
  The invariant of the runs of \<open>server.js\<close>: the room invariant, and every tracked
  connection is a member of the room of its cached code.
\<close>

definition srv_inv :: "state \<Rightarrow> bool" where
  "srv_inv s \<longleftrightarrow>
     registry_ok (rooms s)
     \<and> (\<forall>ws \<in> set (wss_clients s). \<forall>code.
          currentRoom (objs s ws) = Some code \<longrightarrow> member_of (rooms s) code ws)"

text \<open>The invariant of the runs of the second relay.\<close>

definition p0_inv :: "state \<Rightarrow> bool" where
  "p0_inv s \<longleftrightarrow> registry_ok (rooms s) \<and> single_room (rooms s)"

text \<open>A registry in the middle of a join: the room under one code may still be empty.\<close>

definition registry_pre :: "jsstring \<Rightarrow> registry \<Rightarrow> bool" where
  "registry_pre code rs \<longleftrightarrow>
     distinct (map fst rs)
     \<and> (\<forall>p \<in> set rs. room_wf (snd p) \<and> (fst p \<noteq> code \<longrightarrow> clients (snd p) \<noteq> []))"

text \<open>Whether a parsed message is a \<open>move\<close> or a \<open>reset\<close>.\<close>

definition is_relay_msg :: "json \<Rightarrow> bool" where
  "is_relay_msg m \<longleftrightarrow>
     get_prop (units ''t'') m = Some (JStr (units ''move''))
     \<or> get_prop (units ''t'') m = Some (JStr (units ''reset''))"

text \<open>Both roles of a room are taken.\<close>

definition both_taken :: "room \<Rightarrow> bool" where
  "both_taken r \<longleftrightarrow> Some SideX \<in> snd ` set (sides r) \<and> Some SideO \<in> snd ` set (sides r)"

text \<open>
  What a successful join has to leave behind: the sender a member of the registered
  room under the code, with the role of the reply; every other member whose
  connection is OPEN notified of that role; the first role in a room that was not
  registered, the second role beside a single member that holds the first.
\<close>

definition joined_ok :: "state \<Rightarrow> conn \<Rightarrow> jsstring \<Rightarrow> side option \<Rightarrow> state \<Rightarrow> action list \<Rightarrow> bool" where
  "joined_ok s ws code sd s' out \<longleftrightarrow>
     (case map_of (rooms s') code of
        None \<Rightarrow> False
      | Some r' \<Rightarrow>
          ws \<in> set (clients r') \<and> map_of (sides r') ws = Some sd
          \<and> (\<forall>c \<in> set (clients r'). c \<noteq> ws \<and> is_open (objs s) c
                \<longrightarrow> Send c (PeerJoined sd) \<in> set out))
     \<and> (case map_of (rooms s) code of
          None \<Rightarrow> sd = Some SideX
        | Some r \<Rightarrow>
            (\<forall>a. a \<noteq> ws \<and> clients r = [a] \<and> map_of (sides r) a = Some (Some SideX)
                 \<longrightarrow> sd = Some SideO))"

text \<open>
  A join of a connection that is in no room: a room that is not registered is created
  with the connection in the first role; a room with both roles taken answers
  \<open>room_full\<close>; any other room takes the connection in its free role and its other
  members whose connection is OPEN are notified.
\<close>

definition join_outside :: "conn \<Rightarrow> jsstring \<Rightarrow> state \<Rightarrow> state \<times> action list" where
  "join_outside ws code s =
     (case map_of (rooms s) code of
        None \<Rightarrow> (s\<lparr>rooms := rooms s @ [(code, admit ws empty_room)]\<rparr>,
                 [Send ws (Joined code (Some SideX))])
      | Some q \<Rightarrow>
          if both_taken q then (s, [Send ws (ErrorMsg room_full)])
          else (s\<lparr>rooms := AList.update code (admit ws q) (rooms s)\<rparr>,
                Send ws (Joined code (chooseSide q))
                # broadcast (objs s) (admit ws q) (PeerJoined (chooseSide q)) (Some ws)))"

text \<open>Both roles of the room under a code are taken.\<close>

definition target_full :: "registry \<Rightarrow> jsstring \<Rightarrow> bool" where
  "target_full rs code \<longleftrightarrow> (case map_of rs code of None \<Rightarrow> False | Some q \<Rightarrow> both_taken q)"

lemmas eval_defs =
  srv_run_def p0_run_def init_def units_def join_msg_def move_msg_def reset_msg_def
  srv_on_connection_def p0_on_connection_def heartbeatSetup_def on_pong_def set_add_def
  srv_on_message_def p0_on_message_def srv_join_def p0_join_def srv_on_close_def p0_on_close_def
  srv_sweep_def p0_sweep_def getRoom_def empty_room_def assignSide_def chooseSide_def
  otherClient_def sideFor_def broadcast_def evict_def leaveEverywhere_def is_open_def
  String_or_empty_def trim_def is_ws_def set_readyState_def untrack_def Let_def

section \<open>Rooms\<close>

lemma room_ok_wf: "room_ok r \<longleftrightarrow> room_wf r \<and> clients r \<noteq> []"
  by (auto simp: room_ok_def room_wf_def)

lemma room_wf_empty: "room_wf empty_room"
  by (simp add: room_wf_def empty_room_def)

lemma keys_singleton:
  assumes "distinct (map fst xs)" "fst ` set xs = {a}"
  shows "\<exists>v. xs = [(a, v)]"
proof (cases xs)
  case Nil
  with assms show ?thesis by simp
next
  case (Cons p ps)
  with assms have "fst p = a" by auto
  moreover have "ps = []"
  proof (cases ps)
    case (Cons q qs)
    with assms \<open>xs = p # ps\<close> have "fst q = a" "fst q \<noteq> fst p" by auto
    with \<open>fst p = a\<close> show ?thesis by simp
  qed simp
  ultimately show ?thesis using Cons by (cases p) auto
qed

lemma small_room_cases:
  assumes "room_wf r" "length (clients r) < 2"
  shows "(clients r = [] \<and> sides r = []) \<or> (\<exists>a sd. clients r = [a] \<and> sides r = [(a, Some sd)])"
proof (cases "clients r")
  case Nil
  with assms show ?thesis by (simp add: room_wf_def)
next
  case (Cons a as)
  with assms have cs: "clients r = [a]" by (cases as) auto
  from assms cs have k: "distinct (map fst (sides r))" "fst ` set (sides r) = {a}"
    and v: "None \<notin> snd ` set (sides r)"
    by (auto simp: room_wf_def)
  from keys_singleton[OF k] obtain v0 where "sides r = [(a, v0)]" by blast
  with v cs show ?thesis by (cases v0) auto
qed

lemma two_sides:
  assumes "distinct [a, b]" "None \<notin> {a, b}"
  shows "{a, b} = {Some SideX, Some SideO}"
proof -
  obtain x y where "a = Some x" "b = Some y" using assms by (cases a; cases b) auto
  with assms show ?thesis by (cases x; cases y) auto
qed

lemma full_room_sides:
  assumes "room_wf r" "length (clients r) = 2"
  shows "snd ` set (sides r) = {Some SideX, Some SideO}"
proof -
  from assms have "card (set (clients r)) = 2" by (simp add: room_wf_def distinct_card)
  with assms have "card (fst ` set (sides r)) = 2" by (simp add: room_wf_def)
  moreover from assms have "card (fst ` set (sides r)) = length (sides r)"
    by (metis room_wf_def distinct_card length_map list.set_map)
  ultimately have "length (sides r) = 2" by simp
  then obtain p q where pq: "sides r = [p, q]"
    by (metis (no_types) length_0_conv length_Suc_conv numeral_2_eq_2)
  with assms have "distinct [snd p, snd q]" "None \<notin> {snd p, snd q}"
    by (auto simp: room_wf_def)
  from two_sides[OF this] pq show ?thesis by simp
qed

lemma keys_delete: "fst ` set (AList.delete k al) = fst ` set al - {k}"
proof -
  have "set (map fst (AList.delete k al)) = set (map fst al) - {k}"
    by (simp only: AList.delete_keys set_removeAll)
  then show ?thesis by simp
qed

lemma vals_delete: "snd ` set (AList.delete k al) \<subseteq> snd ` set al"
  by (auto simp: AList.delete_eq)

lemma distinct_vals_delete: "distinct (map snd al) \<Longrightarrow> distinct (map snd (AList.delete k al))"
  by (simp add: AList.delete_eq distinct_map_filter)

lemma room_wf_evict: "room_wf r \<Longrightarrow> room_wf (evict ws r)"
proof -
  assume wf: "room_wf r"
  from wf have "length (clients r) \<le> 2" by (simp add: room_wf_def)
  then have "length (removeAll ws (clients r)) \<le> 2"
    by (rule le_trans[OF length_removeAll_less_eq])
  then have "length (clients (evict ws r)) \<le> 2" by (simp add: evict_def)
  moreover from wf have "distinct (clients (evict ws r))"
    by (simp add: room_wf_def evict_def distinct_removeAll)
  moreover from wf have "distinct (map fst (sides (evict ws r)))"
    by (simp add: room_wf_def evict_def AList.distinct_delete)
  moreover from wf have "fst ` set (sides (evict ws r)) = set (clients (evict ws r))"
    by (simp add: room_wf_def evict_def keys_delete)
  moreover from wf vals_delete[of ws "sides r"] have "None \<notin> snd ` set (sides (evict ws r))"
    by (auto simp: room_wf_def evict_def)
  moreover from wf have "distinct (map snd (sides (evict ws r)))"
    by (simp add: room_wf_def evict_def distinct_vals_delete)
  ultimately show ?thesis by (simp add: room_wf_def)
qed

lemma chooseSide_full: "room_wf r \<Longrightarrow> length (clients r) = 2 \<Longrightarrow> chooseSide r = None"
  by (simp add: chooseSide_def full_room_sides)

lemma assignSide_chooseSide: "assignSide r ws = chooseSide r"
  by (simp add: assignSide_def chooseSide_def)

lemma admit_small:
  assumes "room_wf r" "length (clients r) < 2"
  shows "chooseSide r \<noteq> None \<and> room_ok (admit ws r)"
  using small_room_cases[OF assms]
  by (auto simp: chooseSide_def admit_def room_ok_def set_add_def)

lemma evict_empty:
  assumes "room_wf r" "clients (evict ws r) = []"
  shows "evict ws r = empty_room"
proof -
  from room_wf_evict[OF assms(1), of ws] assms(2) have "sides (evict ws r) = []"
    by (simp add: room_wf_def)
  with assms(2) show ?thesis by (simp add: empty_room_def evict_def)
qed

section \<open>The registry\<close>

lemma registry_ok_iff:
  "registry_ok rs \<longleftrightarrow>
     distinct (map fst rs) \<and> (\<forall>c r. map_of rs c = Some r \<longrightarrow> room_ok r)"
proof -
  have "(\<forall>r \<in> snd ` set rs. room_ok r) \<longleftrightarrow> (\<forall>c r. map_of rs c = Some r \<longrightarrow> room_ok r)"
    if d: "distinct (map fst rs)"
  proof
    assume a: "\<forall>r \<in> snd ` set rs. room_ok r"
    show "\<forall>c r. map_of rs c = Some r \<longrightarrow> room_ok r"
    proof (intro allI impI)
      fix c r assume "map_of rs c = Some r"
      then have "(c, r) \<in> set rs" by (rule map_of_SomeD)
      then have "r \<in> snd ` set rs" by force
      with a show "room_ok r" by blast
    qed
  next
    assume a: "\<forall>c r. map_of rs c = Some r \<longrightarrow> room_ok r"
    show "\<forall>r \<in> snd ` set rs. room_ok r"
    proof
      fix r assume "r \<in> snd ` set rs"
      then obtain c where "(c, r) \<in> set rs" by force
      with d have "map_of rs c = Some r" by (rule map_of_is_SomeI)
      with a show "room_ok r" by blast
    qed
  qed
  then show ?thesis unfolding registry_ok_def by blast
qed

lemma single_room_iff:
  assumes "distinct (map fst rs)"
  shows "single_room rs \<longleftrightarrow>
     (\<forall>c1 r1 c2 r2 ws. map_of rs c1 = Some r1 \<and> map_of rs c2 = Some r2
        \<and> ws \<in> set (clients r1) \<and> ws \<in> set (clients r2) \<longrightarrow> c1 = c2)"
proof -
  have m: "\<And>c r. (c, r) \<in> set rs \<longleftrightarrow> map_of rs c = Some r"
    using assms by (auto dest: map_of_SomeD)
  show ?thesis
    unfolding single_room_def
    by (auto simp: m[symmetric]) fastforce+
qed

lemma leave_loop_find:
  "leave_loop os ws es rs =
     (case find (\<lambda>p. ws \<in> set (clients (snd p))) es of
        None \<Rightarrow> (rs, [])
      | Some (code, r) \<Rightarrow>
          (if clients (evict ws r) = [] then AList.delete code rs
           else AList.update code (evict ws r) rs,
           broadcast os (evict ws r) (PeerLeft (Some code)) None))"
  by (induction es) auto

lemma leaveEverywhere_eq:
  "leaveEverywhere os ws rs =
     (case room_of rs ws of
        None \<Rightarrow> (rs, [])
      | Some (code, r) \<Rightarrow>
          (if clients (evict ws r) = [] then AList.delete code rs
           else AList.update code (evict ws r) rs,
           broadcast os (evict ws r) (PeerLeft (Some code)) None))"
  by (simp add: leaveEverywhere_def room_of_def leave_loop_find)

lemma room_of_None: "room_of rs ws = None \<longleftrightarrow> (\<forall>p \<in> set rs. ws \<notin> set (clients (snd p)))"
  by (auto simp: room_of_def find_None_iff)

lemma room_of_SomeD:
  assumes "room_of rs ws = Some (c, r)"
  shows "(c, r) \<in> set rs" "ws \<in> set (clients r)"
proof -
  have "find P xs = Some x \<Longrightarrow> x \<in> set xs \<and> P x" for P and xs :: "(jsstring \<times> room) list" and x
    by (induction xs) (auto split: if_splits)
  from this[of "\<lambda>p. ws \<in> set (clients (snd p))" rs "(c, r)"] assms
  show "(c, r) \<in> set rs" "ws \<in> set (clients r)" by (auto simp: room_of_def)
qed

lemma room_of_Some_map_of:
  "distinct (map fst rs) \<Longrightarrow> room_of rs ws = Some (c, r) \<Longrightarrow> map_of rs c = Some r"
  by (auto dest: room_of_SomeD)

lemma room_of_single:
  assumes "distinct (map fst rs)" "single_room rs" "map_of rs c = Some r" "ws \<in> set (clients r)"
  shows "room_of rs ws = Some (c, r)"
proof (cases "room_of rs ws")
  case None
  with assms show ?thesis by (auto simp: room_of_None dest!: map_of_SomeD)
next
  case (Some p)
  obtain c' r' where p: "p = (c', r')" by (cases p)
  from room_of_SomeD[OF Some[unfolded p]] have in': "(c', r') \<in> set rs" "ws \<in> set (clients r')" .
  from assms(3) have "(c, r) \<in> set rs" by (rule map_of_SomeD)
  with assms(2,4) in' have "c' = c" unfolding single_room_def by fastforce
  with assms(1) in' \<open>(c, r) \<in> set rs\<close> have "r' = r" by (auto dest: eq_key_imp_eq_value)
  with Some p \<open>c' = c\<close> show ?thesis by simp
qed

section \<open>The runs of server.js keep their invariant\<close>

lemma room_ok_imp_wf: "room_ok r \<Longrightarrow> room_wf r"
  by (simp add: room_ok_wf)

lemma clients_admit: "set (clients (admit ws r)) = insert ws (set (clients r))"
  by (auto simp: admit_def set_add_def)

lemma clients_evict: "set (clients (evict ws r)) = set (clients r) - {ws}"
  by (auto simp: evict_def)

lemma evict_empty_room: "evict ws empty_room = empty_room"
  by (simp add: evict_def empty_room_def)

lemma map_of_getRoom:
  "map_of (fst (getRoom code rs)) = (map_of rs)(code \<mapsto> snd (getRoom code rs))"
  by (auto simp: getRoom_def fun_eq_iff map_add_def split: option.splits)

lemma distinct_getRoom:
  "distinct (map fst rs) \<Longrightarrow> distinct (map fst (fst (getRoom code rs)))"
  by (auto simp: getRoom_def map_of_eq_None_iff split: option.splits)

lemma snd_getRoom:
  "snd (getRoom code rs) = (case map_of rs code of None \<Rightarrow> empty_room | Some r \<Rightarrow> r)"
  by (simp add: getRoom_def split: option.splits)

lemma srv_join_full:
  assumes "map_of (rooms s) code = Some r" "length (clients r) \<ge> 2"
  shows "srv_join ws code s = (s, [Send ws (ErrorMsg room_full)])"
  using assms by (simp add: srv_join_def getRoom_def)

lemma srv_join_admit:
  assumes "snd (getRoom code (rooms s)) = r" "length (clients r) < 2"
  shows "fst (srv_join ws code s) =
           s\<lparr>rooms := AList.update code (admit ws r) (fst (getRoom code (rooms s))),
             objs := (objs s)(ws := (objs s ws)\<lparr>currentRoom := Some code\<rparr>)\<rparr>"
  using assms
  by (cases "getRoom code (rooms s)")
     (simp add: srv_join_def Let_def admit_def assignSide_def chooseSide_def)

lemma srv_join_inv:
  assumes "srv_inv s"
  shows "srv_inv (fst (srv_join ws code s))"
proof -
  define r0 where "r0 = snd (getRoom code (rooms s))"
  from assms have ok: "registry_ok (rooms s)" by (simp add: srv_inv_def)
  then have d: "distinct (map fst (rooms s))"
    and rok: "\<And>c r. map_of (rooms s) c = Some r \<Longrightarrow> room_ok r"
    by (auto simp: registry_ok_iff)
  have r0: "map_of (rooms s) code = None \<and> r0 = empty_room \<or> map_of (rooms s) code = Some r0"
    by (auto simp: r0_def snd_getRoom split: option.splits)
  have wf: "room_wf r0"
    using r0 by (auto simp: room_wf_empty dest: rok room_ok_imp_wf)
  show ?thesis
  proof (cases "length (clients r0) \<ge> 2")
    case True
    with r0 have "map_of (rooms s) code = Some r0" by (auto simp: empty_room_def)
    with assms True show ?thesis by (simp add: srv_join_full)
  next
    case False
    then have small: "length (clients r0) < 2" by simp
    from admit_small[OF wf small] have aok: "room_ok (admit ws r0)" by simp
    define rs' where "rs' = AList.update code (admit ws r0) (fst (getRoom code (rooms s)))"
    define os' where "os' = (objs s)(ws := (objs s ws)\<lparr>currentRoom := Some code\<rparr>)"
    have m: "map_of rs' = (map_of (rooms s))(code \<mapsto> admit ws r0)"
      by (simp add: rs'_def AList.update_conv' map_of_getRoom)
    have d': "distinct (map fst rs')"
      by (simp add: rs'_def AList.distinct_update distinct_getRoom d)
    have rok': "registry_ok rs'"
      unfolding registry_ok_iff using d' m aok rok by (auto split: if_splits)
    have tr: "member_of rs' c w"
      if w: "w \<in> set (wss_clients s)" and c: "currentRoom (os' w) = Some c" for w c
    proof (cases "w = ws")
      case True
      with c show ?thesis by (auto simp: m os'_def clients_admit member_of_def)
    next
      case False
      with assms w c have "member_of (rooms s) c w"
        by (simp add: srv_inv_def os'_def)
      with False r0 show ?thesis
        by (auto simp: m clients_admit member_of_def split: option.splits)
    qed
    have "fst (srv_join ws code s) = s\<lparr>rooms := rs', objs := os'\<rparr>"
      unfolding rs'_def os'_def using small by (simp add: srv_join_admit r0_def)
    with rok' tr show ?thesis by (simp add: srv_inv_def)
  qed
qed

lemma srv_on_close_rooms:
  assumes "currentRoom (objs s ws) = Some code" "code \<noteq> []"
  shows "fst (srv_on_close ws s) =
           s\<lparr>rooms := (if clients (evict ws (snd (getRoom code (rooms s)))) = []
                        then AList.delete code (fst (getRoom code (rooms s)))
                        else AList.update code (evict ws (snd (getRoom code (rooms s))))
                               (fst (getRoom code (rooms s))))\<rparr>"
  using assms
  by (cases "getRoom code (rooms s)") (simp add: srv_on_close_def Let_def evict_def)

lemma srv_on_close_idle:
  assumes "currentRoom (objs s ws) = None \<or> currentRoom (objs s ws) = Some []"
  shows "srv_on_close ws s = (s, [])"
  using assms by (auto simp: srv_on_close_def)

lemma srv_on_close_inv:
  assumes "srv_inv s" "ws \<notin> set (wss_clients s)"
  shows "srv_inv (fst (srv_on_close ws s))"
proof (cases "currentRoom (objs s ws) = None \<or> currentRoom (objs s ws) = Some []")
  case True
  with assms show ?thesis by (simp add: srv_on_close_idle)
next
  case False
  then obtain code where code: "currentRoom (objs s ws) = Some code" "code \<noteq> []" by auto
  define r0 where "r0 = snd (getRoom code (rooms s))"
  define rs' where "rs' = (if clients (evict ws r0) = []
                        then AList.delete code (fst (getRoom code (rooms s)))
                        else AList.update code (evict ws r0) (fst (getRoom code (rooms s))))"
  from assms have ok: "registry_ok (rooms s)" by (simp add: srv_inv_def)
  then have d: "distinct (map fst (rooms s))"
    and rok: "\<And>c r. map_of (rooms s) c = Some r \<Longrightarrow> room_ok r"
    by (auto simp: registry_ok_iff)
  have r0: "map_of (rooms s) code = None \<and> r0 = empty_room \<or> map_of (rooms s) code = Some r0"
    by (auto simp: r0_def snd_getRoom split: option.splits)
  have wf: "room_wf r0"
    using r0 by (auto simp: room_wf_empty dest: rok room_ok_imp_wf)
  have m: "map_of rs' = (map_of (rooms s))
             (code := if clients (evict ws r0) = [] then None else Some (evict ws r0))"
    by (simp add: rs'_def AList.update_conv' AList.delete_conv' map_of_getRoom)
  have d': "distinct (map fst rs')"
    by (simp add: rs'_def AList.distinct_update AList.distinct_delete distinct_getRoom d)
  have eok: "clients (evict ws r0) \<noteq> [] \<Longrightarrow> room_ok (evict ws r0)"
    using room_wf_evict[OF wf, of ws] by (simp add: room_ok_wf)
  have rok': "registry_ok rs'"
    unfolding registry_ok_iff using d' m eok rok by (auto split: if_splits)
  have tr: "member_of rs' c w"
    if w: "w \<in> set (wss_clients s)" and c: "currentRoom (objs s w) = Some c" for w c
  proof -
    from assms w c have mem: "member_of (rooms s) c w" and ne: "w \<noteq> ws"
      by (auto simp: srv_inv_def)
    show ?thesis
    proof (cases "c = code")
      case True
      with mem r0 have "w \<in> set (clients r0)" by (auto simp: member_of_def)
      with ne have "w \<in> set (clients (evict ws r0))" by (simp add: clients_evict)
      then show ?thesis using True by (auto simp: m member_of_def)
    next
      case False
      with mem show ?thesis by (simp add: m member_of_def)
    qed
  qed
  have "fst (srv_on_close ws s) = s\<lparr>rooms := rs'\<rparr>"
    unfolding rs'_def r0_def by (rule srv_on_close_rooms[OF code])
  with rok' tr show ?thesis by (simp add: srv_inv_def)
qed

lemma srv_inv_untrack: "srv_inv s \<Longrightarrow> srv_inv (untrack ws s)"
  by (auto simp: srv_inv_def untrack_def set_readyState_def)

lemma srv_inv_set_readyState: "srv_inv s \<Longrightarrow> srv_inv (set_readyState ws n s)"
  by (auto simp: srv_inv_def set_readyState_def)

lemma srv_inv_on_pong: "srv_inv s \<Longrightarrow> srv_inv (on_pong ws s)"
  by (auto simp: srv_inv_def on_pong_def)

lemma srv_inv_on_connection: "srv_inv s \<Longrightarrow> srv_inv (srv_on_connection s)"
  by (auto simp: srv_inv_def srv_on_connection_def heartbeatSetup_def set_add_def Let_def)

lemma srv_sweep_each_fields:
  "srv_sweep_each cs os = (os', acts) \<Longrightarrow>
     currentRoom (os' w) = currentRoom (os w) \<and> readyState (os' w) = readyState (os w)"
  by (induction cs arbitrary: os os' acts) (auto split: if_splits prod.splits)

lemma srv_inv_sweep:
  assumes "srv_inv s"
  shows "srv_inv (fst (srv_sweep s))"
proof -
  obtain os' acts where e: "srv_sweep_each (wss_clients s) (objs s) = (os', acts)"
    by (cases "srv_sweep_each (wss_clients s) (objs s)")
  from srv_sweep_each_fields[OF e] have "\<And>w. currentRoom (os' w) = currentRoom (objs s w)"
    by simp
  with assms e show ?thesis by (simp add: srv_inv_def srv_sweep_def)
qed

lemma srv_on_message_inv:
  assumes "srv_inv s" "ws \<in> set (wss_clients s)" "srv_on_message ws raw s = Inr (s', acts)"
  shows "srv_inv s'"
proof (cases raw)
  case None
  with assms show ?thesis by (simp add: srv_on_message_def)
next
  case (Some msg)
  show ?thesis
  proof (cases "get_prop (units ''t'') msg = Some (JStr (units ''join''))")
    case True
    with assms(3) Some have "s' = s \<or> (\<exists>c. s' = fst (srv_join ws c s))"
      by (auto simp: srv_on_message_def Let_def split: if_splits option.splits json.splits)
         (metis fst_conv)
    with assms(1) show ?thesis by (auto intro: srv_join_inv)
  next
    case False
    have keep: "fst (getRoom c (rooms s)) = rooms s" if "currentRoom (objs s ws) = Some c" for c
    proof -
      from assms(1,2) that have "member_of (rooms s) c ws" by (simp add: srv_inv_def)
      then show ?thesis by (auto simp: member_of_def getRoom_def split: option.splits)
    qed
    from assms(3) Some False have "s' = s \<or> (\<exists>c. currentRoom (objs s ws) = Some c
        \<and> s' = s\<lparr>rooms := fst (getRoom c (rooms s))\<rparr>)"
      by (auto simp: srv_on_message_def Let_def split: if_splits option.splits json.splits prod.splits)
    with keep assms(1) show ?thesis by auto
  qed
qed

lemma srv_step_inv:
  assumes "srv_inv s" "srv_step s e = Some (s', acts)"
  shows "srv_inv s'"
proof (cases e)
  case Connection
  with assms show ?thesis by (auto intro: srv_inv_on_connection)
next
  case (Message ws raw)
  with assms show ?thesis
    by (auto split: if_splits sum.splits intro: srv_on_message_inv)
next
  case (Pong ws)
  with assms show ?thesis by (auto split: if_splits intro: srv_inv_on_pong)
next
  case (Closing ws)
  with assms show ?thesis by (auto split: if_splits intro: srv_inv_set_readyState)
next
  case (Closed ws)
  with assms have s': "s' = fst (srv_on_close ws (untrack ws s))"
    by (auto split: if_splits)
  have "ws \<notin> set (wss_clients (untrack ws s))" by (simp add: untrack_def set_readyState_def)
  with srv_inv_untrack[OF assms(1), of ws] show ?thesis
    unfolding s' by (rule srv_on_close_inv)
next
  case (Errored ws)
  with assms show ?thesis by simp
next
  case Tick
  with assms have "s' = fst (srv_sweep s)" by auto
  with assms(1) show ?thesis by (simp add: srv_inv_sweep)
qed

lemma exec_inv:
  assumes step: "\<And>s e s' acts. P s \<Longrightarrow> step s e = Some (s', acts) \<Longrightarrow> P s'"
  shows "P s \<Longrightarrow> exec step s evs = Some (s', acts) \<Longrightarrow> P s'"
proof (induction evs arbitrary: s acts)
  case Nil
  then show ?case by simp
next
  case (Cons e es)
  from Cons.prems(2) obtain s1 a1 a2 where
    s1: "step s e = Some (s1, a1)" and rest: "exec step s1 es = Some (s', a2)"
    by (auto split: option.splits prod.splits)
  from step[OF Cons.prems(1) s1] have "P s1" .
  from Cons.IH[OF this rest] show ?case .
qed

lemma srv_inv_init: "srv_inv init"
  by (simp add: srv_inv_def init_def registry_ok_def)

lemma srv_run_inv: "srv_run evs = Some (s, acts) \<Longrightarrow> srv_inv s"
  unfolding srv_run_def
  by (rule exec_inv[where P = srv_inv and step = srv_step, OF srv_step_inv srv_inv_init])

section \<open>The runs of the second relay keep their invariant\<close>

lemma registry_pre_iff:
  "registry_pre code rs \<longleftrightarrow>
     distinct (map fst rs)
     \<and> (\<forall>c r. map_of rs c = Some r \<longrightarrow> room_wf r \<and> (c \<noteq> code \<longrightarrow> clients r \<noteq> []))"
proof -
  have "(\<forall>p \<in> set rs. room_wf (snd p) \<and> (fst p \<noteq> code \<longrightarrow> clients (snd p) \<noteq> []))
        \<longleftrightarrow> (\<forall>c r. map_of rs c = Some r \<longrightarrow> room_wf r \<and> (c \<noteq> code \<longrightarrow> clients r \<noteq> []))"
    if d: "distinct (map fst rs)"
  proof -
    have m: "\<And>c r. (c, r) \<in> set rs \<longleftrightarrow> map_of rs c = Some r"
      using d by (auto dest: map_of_SomeD)
    show ?thesis by (auto simp: m[symmetric])
  qed
  then show ?thesis unfolding registry_pre_def by blast
qed

lemma registry_ok_pre: "registry_ok rs \<Longrightarrow> registry_pre code rs"
  by (auto simp: registry_ok_iff registry_pre_iff room_ok_wf)

lemma registry_pre_getRoom:
  assumes "registry_ok rs"
  shows "registry_pre code (fst (getRoom code rs))"
  unfolding registry_pre_iff
  using assms distinct_getRoom[of rs code]
  by (auto simp: registry_ok_iff map_of_getRoom snd_getRoom room_wf_empty room_ok_wf
           split: if_splits option.splits)

lemma map_of_leave:
  assumes "distinct (map fst rs)"
  shows "map_of (fst (leaveEverywhere os ws rs)) =
           (case room_of rs ws of
              None \<Rightarrow> map_of rs
            | Some (c, r) \<Rightarrow>
                (map_of rs)(c := if clients (evict ws r) = [] then None else Some (evict ws r)))"
  by (auto simp: leaveEverywhere_eq AList.update_conv' AList.delete_conv' split: option.splits)

lemma distinct_leave:
  "distinct (map fst rs) \<Longrightarrow> distinct (map fst (fst (leaveEverywhere os ws rs)))"
  by (auto simp: leaveEverywhere_eq AList.distinct_update AList.distinct_delete split: option.splits)

lemma leave_none:
  "room_of rs ws = None \<Longrightarrow> leaveEverywhere os ws rs = (rs, [])"
  by (simp add: leaveEverywhere_eq)

lemma single_room_D:
  assumes "distinct (map fst rs)" "single_room rs"
    "map_of rs c1 = Some r1" "map_of rs c2 = Some r2"
    "ws \<in> set (clients r1)" "ws \<in> set (clients r2)"
  shows "c1 = c2"
  using assms single_room_iff[OF assms(1)] by blast

lemma registry_pre_leave:
  assumes "registry_pre code rs"
  shows "registry_pre code (fst (leaveEverywhere os ws rs))"
proof -
  from assms have d: "distinct (map fst rs)" by (simp add: registry_pre_def)
  show ?thesis
  proof (cases "room_of rs ws")
    case None
    with assms show ?thesis by (simp add: leave_none)
  next
    case (Some p)
    obtain c r where p: "p = (c, r)" by (cases p)
    from room_of_Some_map_of[OF d Some[unfolded p]] have cr: "map_of rs c = Some r" .
    with assms have "room_wf r" by (simp add: registry_pre_iff)
    then have "room_wf (evict ws r)" by (rule room_wf_evict)
    with assms show ?thesis
      unfolding registry_pre_iff
      using distinct_leave[OF d, of os ws] map_of_leave[OF d, of os ws] Some p
      by (auto split: if_splits)
  qed
qed

lemma single_room_leave:
  assumes d: "distinct (map fst rs)" and s: "single_room rs"
  shows "single_room (fst (leaveEverywhere os ws rs))"
proof -
  have sub: "\<exists>r. map_of rs c = Some r \<and> set (clients r') \<subseteq> set (clients r)"
    if m: "map_of (fst (leaveEverywhere os ws rs)) c = Some r'" for c r'
  proof (cases "room_of rs ws")
    case None
    with m show ?thesis by (simp add: leave_none)
  next
    case (Some p)
    obtain c0 r0 where p: "p = (c0, r0)" by (cases p)
    from room_of_Some_map_of[OF d Some[unfolded p]] have cr: "map_of rs c0 = Some r0" .
    with m Some p map_of_leave[OF d, of os ws] show ?thesis
      by (auto simp: clients_evict split: if_splits)
  qed
  show ?thesis
    unfolding single_room_iff[OF distinct_leave[OF d]]
  proof (intro allI impI)
    fix c1 r1 c2 r2 w
    assume a: "map_of (fst (leaveEverywhere os ws rs)) c1 = Some r1 \<and>
       map_of (fst (leaveEverywhere os ws rs)) c2 = Some r2 \<and>
       w \<in> set (clients r1) \<and> w \<in> set (clients r2)"
    from a sub[of c1 r1] sub[of c2 r2] obtain q1 q2 where
      "map_of rs c1 = Some q1" "map_of rs c2 = Some q2" "w \<in> set (clients q1)" "w \<in> set (clients q2)"
      by blast
    then show "c1 = c2" by (rule single_room_D[OF d s])
  qed
qed

lemma leave_gone:
  assumes d: "distinct (map fst rs)" and s: "single_room rs"
    and m: "map_of (fst (leaveEverywhere os ws rs)) c = Some r"
  shows "ws \<notin> set (clients r)"
proof (cases "room_of rs ws")
  case None
  with m have "map_of rs c = Some r" by (simp add: leave_none)
  then have "(c, r) \<in> set rs" by (rule map_of_SomeD)
  with None show ?thesis by (auto simp: room_of_None)
next
  case (Some p)
  obtain c0 r0 where p: "p = (c0, r0)" by (cases p)
  from room_of_Some_map_of[OF d Some[unfolded p]] have cr: "map_of rs c0 = Some r0" .
  from room_of_SomeD[OF Some[unfolded p]] have in0: "ws \<in> set (clients r0)" by simp
  show ?thesis
  proof (cases "c = c0")
    case True
    with m Some p map_of_leave[OF d, of os ws] show ?thesis
      by (auto simp: clients_evict split: if_splits)
  next
    case False
    with m Some p map_of_leave[OF d, of os ws] have "map_of rs c = Some r" by auto
    with False single_room_D[OF d s this cr _ in0] show ?thesis by blast
  qed
qed

lemma p0_join_eq:
  assumes "getRoom code (rooms s) = (rs1, r0)" "leaveEverywhere (objs s) ws rs1 = (rs2, left)"
    and "r = (case map_of rs2 code of Some r' \<Rightarrow> r' | None \<Rightarrow> evict ws r0)"
  shows "p0_join ws code s =
          (if chooseSide r = None then (s\<lparr>rooms := rs2\<rparr>, left @ [Send ws (ErrorMsg room_full)])
           else (s\<lparr>rooms := (if map_of rs2 code = None then rs2
                              else AList.update code (admit ws r) rs2)\<rparr>,
                 left @ [Send ws (Joined code (chooseSide r))]
                      @ broadcast (objs s) (admit ws r) (PeerJoined (chooseSide r)) (Some ws)))"
  using assms by (simp add: p0_join_def Let_def admit_def)

lemma chooseSide_empty: "clients r = [] \<Longrightarrow> room_wf r \<Longrightarrow> chooseSide r = Some SideX"
  by (auto simp: room_wf_def chooseSide_def)

lemma chooseSide_free:
  assumes "room_wf r" "chooseSide r \<noteq> None"
  shows "length (clients r) < 2"
proof (rule ccontr)
  assume "\<not> length (clients r) < 2"
  with assms(1) have "length (clients r) = 2" by (simp add: room_wf_def)
  with assms show False by (simp add: chooseSide_full)
qed

lemma single_room_getRoom:
  assumes "single_room rs"
  shows "single_room (fst (getRoom code rs))"
proof (cases "map_of rs code")
  case None
  with assms show ?thesis
    by (auto simp: getRoom_def single_room_def empty_room_def)
next
  case (Some r)
  with assms show ?thesis by (simp add: getRoom_def)
qed

lemma registry_pre_ok:
  assumes "registry_pre code rs" "\<And>r. map_of rs code = Some r \<Longrightarrow> clients r \<noteq> []"
  shows "registry_ok rs"
  unfolding registry_ok_iff
proof (intro conjI allI impI)
  from assms(1) show "distinct (map fst rs)" by (simp add: registry_pre_def)
next
  fix c r assume m: "map_of rs c = Some r"
  with assms(1) have wf: "room_wf r" and ne: "c \<noteq> code \<Longrightarrow> clients r \<noteq> []"
    by (auto simp: registry_pre_iff)
  from m assms(2) ne have "clients r \<noteq> []" by (cases "c = code") auto
  with wf show "room_ok r" by (simp add: room_ok_wf)
qed

lemma registry_ok_leave:
  assumes "registry_ok rs"
  shows "registry_ok (fst (leaveEverywhere os ws rs))"
proof -
  from assms have d: "distinct (map fst rs)" by (simp add: registry_ok_def)
  show ?thesis
  proof (cases "room_of rs ws")
    case None
    with assms show ?thesis by (simp add: leave_none)
  next
    case (Some p)
    obtain c r where p: "p = (c, r)" by (cases p)
    from room_of_Some_map_of[OF d Some[unfolded p]] have cr: "map_of rs c = Some r" .
    with assms have "room_wf r" by (simp add: registry_ok_iff room_ok_wf)
    then have "room_wf (evict ws r)" by (rule room_wf_evict)
    then have "clients (evict ws r) \<noteq> [] \<Longrightarrow> room_ok (evict ws r)" by (simp add: room_ok_wf)
    with assms show ?thesis
      unfolding registry_ok_iff
      using distinct_leave[OF d, of os ws] map_of_leave[OF d, of os ws] Some p
      by (auto split: if_splits)
  qed
qed

lemma p0_join_inv:
  assumes "p0_inv s"
  shows "p0_inv (fst (p0_join ws code s))"
proof -
  obtain rs1 r0 where g: "getRoom code (rooms s) = (rs1, r0)" by (cases "getRoom code (rooms s)")
  obtain rs2 left where l: "leaveEverywhere (objs s) ws rs1 = (rs2, left)"
    by (cases "leaveEverywhere (objs s) ws rs1")
  define r where "r = (case map_of rs2 code of Some r' \<Rightarrow> r' | None \<Rightarrow> evict ws r0)"
  note eq = p0_join_eq[OF g l r_def]
  from assms have ok: "registry_ok (rooms s)" and sg: "single_room (rooms s)"
    by (simp_all add: p0_inv_def)
  from ok have d0: "distinct (map fst (rooms s))" by (simp add: registry_ok_def)
  from g have rs1: "rs1 = fst (getRoom code (rooms s))" by simp
  from l have rs2: "rs2 = fst (leaveEverywhere (objs s) ws rs1)" by simp
  have d1: "distinct (map fst rs1)" unfolding rs1 by (rule distinct_getRoom[OF d0])
  have pre1: "registry_pre code rs1" unfolding rs1 by (rule registry_pre_getRoom[OF ok])
  have sg1: "single_room rs1" unfolding rs1 by (rule single_room_getRoom[OF sg])
  have d2: "distinct (map fst rs2)" unfolding rs2 by (rule distinct_leave[OF d1])
  have pre2: "registry_pre code rs2" unfolding rs2 by (rule registry_pre_leave[OF pre1])
  have sg2: "single_room rs2" unfolding rs2 by (rule single_room_leave[OF d1 sg1])
  have gone: "\<And>c q. map_of rs2 c = Some q \<Longrightarrow> ws \<notin> set (clients q)"
    unfolding rs2 by (rule leave_gone[OF d1 sg1])
  show ?thesis
  proof (cases "map_of rs2 code")
    case None
    with pre2 have "registry_ok rs2" by (auto intro: registry_pre_ok)
    with sg2 None show ?thesis by (simp add: eq p0_inv_def)
  next
    case (Some q)
    then have rq: "r = q" by (simp add: r_def)
    from pre2 Some have wf: "room_wf q" by (simp add: registry_pre_iff)
    show ?thesis
    proof (cases "chooseSide q = None")
      case True
      with wf have "clients q \<noteq> []" by (auto dest: chooseSide_empty)
      with pre2 Some have "registry_ok rs2" by (auto intro: registry_pre_ok)
      with sg2 True rq show ?thesis by (simp add: eq p0_inv_def)
    next
      case False
      from chooseSide_free[OF wf False] have small: "length (clients q) < 2" .
      from admit_small[OF wf small] have aok: "room_ok (admit ws q)" by simp
      define rs3 where "rs3 = AList.update code (admit ws q) rs2"
      have m3: "map_of rs3 = (map_of rs2)(code \<mapsto> admit ws q)"
        by (simp add: rs3_def AList.update_conv')
      have d3: "distinct (map fst rs3)" by (simp add: rs3_def AList.distinct_update d2)
      have ok3: "registry_ok rs3"
        unfolding registry_ok_iff
        using d3 m3 aok pre2[unfolded registry_pre_iff]
        by (auto simp: room_ok_wf split: if_splits)
      have sg3: "single_room rs3"
        unfolding single_room_iff[OF d3]
      proof (intro allI impI)
        fix c1 r1 c2 r2 w
        assume a: "map_of rs3 c1 = Some r1 \<and> map_of rs3 c2 = Some r2
                   \<and> w \<in> set (clients r1) \<and> w \<in> set (clients r2)"
        show "c1 = c2"
        proof (cases "w = ws")
          case True
          with a gone have "c1 = code" "c2 = code" by (auto simp: m3 split: if_splits)
          then show ?thesis by simp
        next
          case False
          have "\<exists>q'. map_of rs2 c = Some q' \<and> w \<in> set (clients q')"
            if "map_of rs3 c = Some r'" "w \<in> set (clients r')" for c r'
            using that False Some by (auto simp: m3 clients_admit split: if_splits)
          with a obtain q1 q2 where "map_of rs2 c1 = Some q1" "map_of rs2 c2 = Some q2"
            "w \<in> set (clients q1)" "w \<in> set (clients q2)" by blast
          then show ?thesis by (rule single_room_D[OF d2 sg2])
        qed
      qed
      from False rq have "fst (p0_join ws code s) = s\<lparr>rooms := rs3\<rparr>"
        unfolding eq rs3_def using Some by auto
      with ok3 sg3 show ?thesis by (simp add: p0_inv_def)
    qed
  qed
qed

lemma p0_on_close_inv:
  assumes "p0_inv s"
  shows "p0_inv (fst (p0_on_close ws s))"
proof -
  from assms have ok: "registry_ok (rooms s)" and sg: "single_room (rooms s)"
    by (simp_all add: p0_inv_def)
  from ok have d0: "distinct (map fst (rooms s))" by (simp add: registry_ok_def)
  obtain rs' acts where l: "leaveEverywhere (objs s) ws (rooms s) = (rs', acts)"
    by (cases "leaveEverywhere (objs s) ws (rooms s)")
  from registry_ok_leave[OF ok, of "objs s" ws] single_room_leave[OF d0 sg, of "objs s" ws] l
  show ?thesis by (simp add: p0_on_close_def p0_inv_def)
qed

lemma p0_on_message_rooms:
  assumes "p0_on_message ws raw s = Inr (s', acts)"
  shows "s' = s \<or> (\<exists>code. s' = fst (p0_join ws code s))"
  using assms
  by (auto simp: p0_on_message_def Let_def split: option.splits if_splits sum.splits)
     (metis fst_conv)

lemma p0_on_message_inv:
  assumes "p0_inv s" "p0_on_message ws raw s = Inr (s', acts)"
  shows "p0_inv s'"
  using p0_on_message_rooms[OF assms(2)] assms(1) by (auto intro: p0_join_inv)

lemma p0_step_rooms:
  assumes "p0_step s e = Some (s', acts)"
  shows "rooms s' = rooms s \<or> (\<exists>ws code. s' = fst (p0_join ws code s))
         \<or> (\<exists>ws s0. rooms s0 = rooms s \<and> s' = fst (p0_on_close ws s0))"
proof (cases e)
  case (Message ws raw)
  with assms have "p0_on_message ws raw s = Inr (s', acts)"
    by (auto split: if_splits sum.splits)
  from p0_on_message_rooms[OF this] show ?thesis by auto
next
  case (Closed ws)
  with assms have "s' = fst (p0_on_close ws (untrack ws s))" by (auto split: if_splits)
  moreover have "rooms (untrack ws s) = rooms s" by (simp add: untrack_def set_readyState_def)
  ultimately show ?thesis by blast
next
  case (Errored ws)
  with assms have "s' = fst (p0_on_close ws s)" by (auto split: if_splits)
  then show ?thesis by blast
next
  case Tick
  with assms show ?thesis by (auto simp: p0_sweep_def split: prod.splits)
qed (use assms in \<open>auto simp: p0_on_connection_def on_pong_def set_readyState_def Let_def split: if_splits\<close>)

lemma p0_inv_rooms: "p0_inv s \<Longrightarrow> rooms s' = rooms s \<Longrightarrow> p0_inv s'"
  by (simp add: p0_inv_def)

lemma p0_step_inv:
  assumes "p0_inv s" "p0_step s e = Some (s', acts)"
  shows "p0_inv s'"
  using p0_step_rooms[OF assms(2)] assms(1)
  by (auto intro: p0_join_inv p0_on_close_inv p0_inv_rooms)

lemma p0_inv_init: "p0_inv init"
  by (simp add: p0_inv_def init_def registry_ok_def single_room_def)

lemma p0_run_inv: "p0_run evs = Some (s, acts) \<Longrightarrow> p0_inv s"
  unfolding p0_run_def
  by (rule exec_inv[where P = p0_inv and step = p0_step, OF p0_step_inv p0_inv_init])

section \<open>Moves and resets\<close>

lemma json_wire_id:
  "writes_back d \<Longrightarrow> json_wire d = d"
  "writes_back_list xs \<Longrightarrow> json_wire_list xs = xs"
  "writes_back_props kvs \<Longrightarrow> json_wire_props kvs = kvs"
  by (induction d and xs and kvs rule: json_wire_json_wire_list_json_wire_props.induct) auto

lemma is_relay_msg_not_join:
  "is_relay_msg m \<Longrightarrow> get_prop (units ''t'') m \<noteq> Some (JStr (units ''join'')) \<and> m \<noteq> JNull
     \<and> truthy (Some m) \<and> truthy (get_prop (units ''t'') m)"
  by (cases m) (auto simp: is_relay_msg_def units_def)

lemma getRoom_member:
  "member_of rs c ws \<Longrightarrow> \<exists>r. map_of rs c = Some r \<and> ws \<in> set (clients r) \<and> getRoom c rs = (rs, r)"
  by (auto simp: member_of_def getRoom_def split: option.splits)

lemma srv_relay_frame:
  assumes "srv_inv s" "ws \<in> set (wss_clients s)" "is_relay_msg m"
  shows "\<exists>out. srv_on_message ws (Some m) s = Inr (s, out)"
proof -
  note nj = is_relay_msg_not_join[OF assms(3)]
  show ?thesis
  proof (cases "\<exists>c. get_prop (units ''room'') m = Some (JStr c) \<and> c \<noteq> []
                    \<and> currentRoom (objs s ws) = Some c")
    case True
    then obtain c where c: "get_prop (units ''room'') m = Some (JStr c)" "c \<noteq> []"
      "currentRoom (objs s ws) = Some c" by blast
    from assms(1,2) c(3) have "member_of (rooms s) c ws" by (simp add: srv_inv_def)
    from getRoom_member[OF this] obtain r where "getRoom c (rooms s) = (rooms s, r)" by blast
    with c nj show ?thesis by (simp add: srv_on_message_def Let_def)
  next
    case False
    with nj show ?thesis
      by (auto simp: srv_on_message_def Let_def split: option.splits json.splits)
  qed
qed

lemma p0_relay_frame:
  assumes "is_relay_msg m"
  shows "p0_on_message ws (Some m) s = Inl TypeError \<or> (\<exists>out. p0_on_message ws (Some m) s = Inr (s, out))"
proof -
  note nj = is_relay_msg_not_join[OF assms]
  from assms nj show ?thesis
    by (cases "String_or_empty (get_prop (units ''room'') m)")
       (auto simp: p0_on_message_def is_relay_msg_def Let_def split: option.splits intro: js_error.exhaust)
qed

lemma two_members:
  assumes "room_ok r" "a \<in> set (clients r)" "b \<in> set (clients r)" "a \<noteq> b"
  shows "clients r = [a, b] \<or> clients r = [b, a]"
proof -
  from assms(1) have l: "length (clients r) \<le> 2" by (simp add: room_ok_def)
  obtain x xs where x: "clients r = x # xs" using assms(2) by (cases "clients r") auto
  with assms(2,3,4) obtain y ys where y: "xs = y # ys" by (cases xs) auto
  with x l have "ys = []" by simp
  with x y assms(2,3,4) show ?thesis by auto
qed

lemma second_side:
  assumes "room_ok r" "a \<in> set (clients r)" "b \<in> set (clients r)" "a \<noteq> b"
    "map_of (sides r) a = Some (Some SideX)"
  shows "map_of (sides r) b = Some (Some SideO)"
proof -
  from assms(1) have k: "fst ` set (sides r) = set (clients r)" and dk: "distinct (map fst (sides r))"
    and dv: "distinct (map snd (sides r))" and nn: "None \<notin> snd ` set (sides r)"
    by (simp_all add: room_ok_def)
  from assms(3) k obtain v where v: "(b, v) \<in> set (sides r)" by force
  from assms(5) have xa: "(a, Some SideX) \<in> set (sides r)" by (rule map_of_SomeD)
  from v nn have "v \<noteq> None" by force
  moreover have "v \<noteq> Some SideX"
  proof
    assume "v = Some SideX"
    with v xa dv assms(4) show False
      by (metis distinct_map fst_conv inj_onD snd_conv)
  qed
  ultimately have "v = Some SideO" by (cases v) (auto intro: side.exhaust)
  with v dk show ?thesis by simp
qed

lemma relay_targets:
  assumes "room_ok r" "a \<in> set (clients r)" "b \<in> set (clients r)" "a \<noteq> b"
  shows "otherClient r a = Some b"
    and "broadcast os r msg (Some a) = (if is_open os b then [Send b msg] else [])"
  using two_members[OF assms] assms(4)
  by (auto simp: otherClient_def broadcast_def)

section \<open>What a join and a leave send\<close>

lemma broadcast_sends: "a \<in> set (broadcast os r msg ex) \<Longrightarrow> \<exists>c. a = Send c msg"
  by (auto simp: broadcast_def)

lemma leave_sends:
  "a \<in> set (snd (leaveEverywhere os ws rs)) \<Longrightarrow> \<exists>c code. a = Send c (PeerLeft (Some code))"
  by (auto simp: leaveEverywhere_eq broadcast_def split: option.splits)

lemma srv_join_no_missing: "Send c (ErrorMsg missing_room) \<notin> set (snd (srv_join ws code s))"
  by (cases "getRoom code (rooms s)")
     (auto simp: srv_join_def Let_def split: option.splits if_splits)

lemma p0_join_no_missing: "Send c (ErrorMsg missing_room) \<notin> set (snd (p0_join ws code s))"
proof -
  obtain rs1 r0 where g: "getRoom code (rooms s) = (rs1, r0)" by (cases "getRoom code (rooms s)")
  obtain rs2 left where l: "leaveEverywhere (objs s) ws rs1 = (rs2, left)"
    by (cases "leaveEverywhere (objs s) ws rs1")
  from leave_sends[of _ "objs s" ws rs1] l
  have "Send c (ErrorMsg missing_room) \<notin> set left" by fastforce
  then show ?thesis
    unfolding p0_join_eq[OF g l refl]
    by (auto dest: broadcast_sends)
qed

lemma String_or_empty_JStr: "String_or_empty (Some (JStr c)) = Inr c"
  by (simp add: String_or_empty_def)

section \<open>Leaving and joining in the second relay\<close>

lemma chooseSide_None_iff: "chooseSide r = None \<longleftrightarrow> both_taken r"
  by (auto simp: chooseSide_def both_taken_def)

lemma both_taken_full:
  assumes "room_wf r" "both_taken r"
  shows "length (clients r) = 2"
proof (rule ccontr)
  assume "length (clients r) \<noteq> 2"
  with assms(1) have "length (clients r) < 2" by (simp add: room_wf_def)
  from small_room_cases[OF assms(1) this] assms(2) show False
    by (auto simp: both_taken_def)
qed

lemma update_append_new:
  "k \<notin> fst ` set al \<Longrightarrow> AList.update k v (al @ [(k, w)]) = al @ [(k, v)]"
  by (induction al) auto

lemma update_append_in:
  "k \<in> fst ` set al \<Longrightarrow> AList.update k v (al @ bs) = AList.update k v al @ bs"
  by (induction al) auto

lemma delete_append: "AList.delete k (al @ bs) = AList.delete k al @ AList.delete k bs"
  by (simp add: AList.delete_eq)

lemma room_of_append_empty: "room_of (rs @ [(code, empty_room)]) ws = room_of rs ws"
  by (induction rs) (auto simp: room_of_def empty_room_def)

lemma room_of_getRoom: "room_of (fst (getRoom code rs)) ws = room_of rs ws"
  by (auto simp: getRoom_def room_of_append_empty split: option.splits)

lemma leave_append_empty:
  assumes "map_of rs code = None"
  shows "leaveEverywhere os ws (rs @ [(code, empty_room)])
         = (fst (leaveEverywhere os ws rs) @ [(code, empty_room)], snd (leaveEverywhere os ws rs))"
proof (cases "room_of rs ws")
  case None
  then show ?thesis by (simp add: leaveEverywhere_eq room_of_append_empty)
next
  case (Some p)
  obtain c r where p: "p = (c, r)" by (cases p)
  from room_of_SomeD(1)[OF Some[unfolded p]] have in_rs: "(c, r) \<in> set rs" .
  then have k: "c \<in> fst ` set rs" by force
  with assms have ne: "c \<noteq> code" by (auto simp: map_of_eq_None_iff)
  from Some p k ne show ?thesis
    by (simp add: leaveEverywhere_eq room_of_append_empty update_append_in delete_append)
qed

lemma leave_keeps_None:
  assumes "distinct (map fst rs)" "map_of rs code = None"
  shows "map_of (fst (leaveEverywhere os ws rs)) code = None"
proof (cases "room_of rs ws")
  case None
  with assms show ?thesis by (simp add: leave_none)
next
  case (Some p)
  obtain c q where p: "p = (c, q)" by (cases p)
  from room_of_Some_map_of[OF assms(1) Some[unfolded p]] assms(2) have "c \<noteq> code" by auto
  with assms(2) Some p map_of_leave[OF assms(1), of os ws] show ?thesis by simp
qed

lemma leave_other:
  assumes "distinct (map fst rs)" "map_of rs code = Some r" "ws \<notin> set (clients r)"
  shows "map_of (fst (leaveEverywhere os ws rs)) code = Some r"
proof (cases "room_of rs ws")
  case None
  with assms show ?thesis by (simp add: leave_none)
next
  case (Some p)
  obtain c q where p: "p = (c, q)" by (cases p)
  from room_of_Some_map_of[OF assms(1) Some[unfolded p]] have cq: "map_of rs c = Some q" .
  from room_of_SomeD(2)[OF Some[unfolded p]] have "ws \<in> set (clients q)" .
  with assms(2,3) cq have "c \<noteq> code" by auto
  with assms(2) Some p map_of_leave[OF assms(1), of os ws] show ?thesis by simp
qed

lemma room_of_None_map_of:
  assumes "distinct (map fst rs)"
  shows "room_of rs ws = None \<longleftrightarrow> (\<forall>c r. map_of rs c = Some r \<longrightarrow> ws \<notin> set (clients r))"
proof -
  have m: "\<And>c r. (c, r) \<in> set rs \<longleftrightarrow> map_of rs c = Some r"
    using assms by (auto dest: map_of_SomeD)
  show ?thesis unfolding room_of_None by (auto simp: m[symmetric])
qed

lemma room_of_after_leave:
  assumes "distinct (map fst rs)" "single_room rs"
  shows "room_of (fst (leaveEverywhere os ws rs)) ws = None"
  unfolding room_of_None_map_of[OF distinct_leave[OF assms(1)]]
  using leave_gone[OF assms] by blast

lemma p0_on_close_eq:
  "p0_on_close ws s = (s\<lparr>rooms := fst (leaveEverywhere (objs s) ws (rooms s))\<rparr>,
                       snd (leaveEverywhere (objs s) ws (rooms s)))"
  by (simp add: p0_on_close_def split: prod.splits)


text \<open>A join of a connection that is in no room.\<close>

lemma p0_join_outside:
  assumes "registry_ok (rooms s)" "room_of (rooms s) ws = None"
  shows "p0_join ws code s =
     (case map_of (rooms s) code of
        None \<Rightarrow> (s\<lparr>rooms := rooms s @ [(code, admit ws empty_room)]\<rparr>,
                 [Send ws (Joined code (Some SideX))])
      | Some q \<Rightarrow>
          if both_taken q then (s, [Send ws (ErrorMsg room_full)])
          else (s\<lparr>rooms := AList.update code (admit ws q) (rooms s)\<rparr>,
                Send ws (Joined code (chooseSide q))
                # broadcast (objs s) (admit ws q) (PeerJoined (chooseSide q)) (Some ws)))"
proof (cases "map_of (rooms s) code")
  case None
  then have g: "getRoom code (rooms s) = (rooms s @ [(code, empty_room)], empty_room)"
    by (simp add: getRoom_def)
  from assms(2) have l: "leaveEverywhere (objs s) ws (rooms s @ [(code, empty_room)])
                         = (rooms s @ [(code, empty_room)], [])"
    by (simp add: leave_none room_of_append_empty)
  from None have k: "code \<notin> fst ` set (rooms s)" by (simp add: map_of_eq_None_iff)
  have m: "map_of (rooms s @ [(code, empty_room)]) code = Some empty_room"
    using None by (simp add: map_add_def)
  have u: "AList.update code v (rooms s @ [(code, empty_room)]) = rooms s @ [(code, v)]" for v
    using k by (rule update_append_new)
  have b: "broadcast (objs s) (admit ws empty_room) msg (Some ws) = []" for msg
    by (simp add: broadcast_def admit_def empty_room_def set_add_def)
  have c: "chooseSide empty_room = Some SideX" by (simp add: chooseSide_def empty_room_def)
  show ?thesis
    unfolding p0_join_eq[OF g l refl] using None by (simp add: map_add_def u b c)
next
  case (Some q)
  then have g: "getRoom code (rooms s) = (rooms s, q)" by (simp add: getRoom_def)
  from assms(2) have l: "leaveEverywhere (objs s) ws (rooms s) = (rooms s, [])"
    by (simp add: leave_none)
  show ?thesis
    unfolding p0_join_eq[OF g l refl] using Some by (simp add: chooseSide_None_iff)
qed

text \<open>A join from inside another room is a close followed by a join from outside.\<close>

lemma p0_join_leaves_first:
  assumes ok: "registry_ok (rooms s)" and sg: "single_room (rooms s)"
    and nm: "\<not> member_of (rooms s) code ws"
  shows "p0_join ws code s =
           (fst (p0_join ws code (fst (p0_on_close ws s))),
            snd (p0_on_close ws s) @ snd (p0_join ws code (fst (p0_on_close ws s))))"
proof -
  from ok have d: "distinct (map fst (rooms s))" by (simp add: registry_ok_def)
  obtain rsL left where L: "leaveEverywhere (objs s) ws (rooms s) = (rsL, left)"
    by (cases "leaveEverywhere (objs s) ws (rooms s)")
  define s1 where "s1 = s\<lparr>rooms := rsL\<rparr>"
  have cl: "p0_on_close ws s = (s1, left)" by (simp add: p0_on_close_def L s1_def)
  have gone: "room_of rsL ws = None"
    using room_of_after_leave[OF d sg, of "objs s" ws] L by simp
  obtain rs1 r0 where g: "getRoom code (rooms s) = (rs1, r0)" by (cases "getRoom code (rooms s)")
  obtain rsL1 q0 where g1: "getRoom code rsL = (rsL1, q0)" by (cases "getRoom code rsL")
  have l1: "leaveEverywhere (objs s) ws rsL1 = (rsL1, [])"
    using gone room_of_getRoom[of code rsL ws] g1 by (simp add: leave_none)
  have some1: "map_of rsL1 code \<noteq> None"
    using map_of_getRoom[of code rsL] g1 by simp
  have l: "leaveEverywhere (objs s) ws rs1 = (rsL1, left)"
  proof (cases "map_of (rooms s) code")
    case None
    with g have rs1: "rs1 = rooms s @ [(code, empty_room)]" by (simp add: getRoom_def)
    from leave_keeps_None[OF d None, of "objs s" ws] L have "map_of rsL code = None" by simp
    with g1 have "rsL1 = rsL @ [(code, empty_room)]" by (simp add: getRoom_def)
    with leave_append_empty[OF None, of "objs s" ws] L rs1 show ?thesis by simp
  next
    case (Some r)
    with g have rs1: "rs1 = rooms s" by (simp add: getRoom_def)
    from Some nm have "ws \<notin> set (clients r)" by (simp add: member_of_def)
    from leave_other[OF d Some this, of "objs s"] L have "map_of rsL code = Some r" by simp
    with g1 have "rsL1 = rsL" by (simp add: getRoom_def)
    with L rs1 show ?thesis by simp
  qed
  have g1': "getRoom code (rooms s1) = (rsL1, q0)" using g1 by (simp add: s1_def)
  have l1': "leaveEverywhere (objs s1) ws rsL1 = (rsL1, [])" using l1 by (simp add: s1_def)
  define r where "r = (case map_of rsL1 code of Some r' \<Rightarrow> r' | None \<Rightarrow> evict ws r0)"
  have r': "r = (case map_of rsL1 code of Some r' \<Rightarrow> r' | None \<Rightarrow> evict ws q0)"
    using some1 by (auto simp: r_def)
  show ?thesis
    unfolding cl fst_conv snd_conv p0_join_eq[OF g l r_def] p0_join_eq[OF g1' l1' r']
    by (simp add: s1_def)
qed

lemma join_msg_truthy:
  assumes "get_prop (units ''t'') m = Some (JStr (units ''join''))"
  shows "m \<noteq> JNull" "truthy (Some m)" "truthy (get_prop (units ''t'') m)"
  using assms by (cases m; auto simp: units_def)+

lemma srv_on_message_join:
  assumes "get_prop (units ''t'') m = Some (JStr (units ''join''))"
    "get_prop (units ''room'') m = Some (JStr code)" "code \<noteq> []"
  shows "srv_on_message ws (Some m) s = Inr (srv_join ws code s)"
  using assms join_msg_truthy[OF assms(1)] by (simp add: srv_on_message_def Let_def)

lemma p0_on_message_join:
  assumes "get_prop (units ''t'') m = Some (JStr (units ''join''))"
    "String_or_empty (get_prop (units ''room'') m) = Inr str" "trim str \<noteq> []"
  shows "p0_on_message ws (Some m) s = Inr (p0_join ws (trim str) s)"
  using assms join_msg_truthy[OF assms(1)] by (simp add: p0_on_message_def Let_def)

lemma p0_join_full:
  assumes "registry_ok (rooms s)" "map_of (rooms s) code = Some r" "both_taken r"
    "ws \<notin> set (clients r)"
  shows "p0_join ws code s
           = (fst (p0_on_close ws s), snd (p0_on_close ws s) @ [Send ws (ErrorMsg room_full)])"
    and "map_of (rooms (fst (p0_on_close ws s))) code = Some r"
proof -
  from assms(1) have d: "distinct (map fst (rooms s))" by (simp add: registry_ok_def)
  have g: "getRoom code (rooms s) = (rooms s, r)" using assms(2) by (simp add: getRoom_def)
  obtain rsL left where L: "leaveEverywhere (objs s) ws (rooms s) = (rsL, left)"
    by (cases "leaveEverywhere (objs s) ws (rooms s)")
  from leave_other[OF d assms(2,4), of "objs s"] L have m: "map_of rsL code = Some r" by simp
  from assms(3) have c: "chooseSide r = None" by (simp add: chooseSide_None_iff)
  show "p0_join ws code s
           = (fst (p0_on_close ws s), snd (p0_on_close ws s) @ [Send ws (ErrorMsg room_full)])"
    unfolding p0_join_eq[OF g L refl] using m c L by (simp add: p0_on_close_eq)
  show "map_of (rooms (fst (p0_on_close ws s))) code = Some r"
    using m L by (simp add: p0_on_close_eq)
qed

lemma sides_admit: "map_of (sides (admit ws r)) ws = Some (chooseSide r)"
  by (simp add: admit_def AList.update_conv')

lemma chooseSide_second:
  assumes "room_wf r" "clients r = [a]" "map_of (sides r) a = Some (Some SideX)"
  shows "chooseSide r = Some SideO"
proof -
  from assms(2) have "length (clients r) < 2" by simp
  from small_room_cases[OF assms(1) this] assms(2,3) show ?thesis
    by (auto simp: chooseSide_def)
qed

lemma srv_join_small:
  assumes "snd (getRoom code (rooms s)) = r" "length (clients r) < 2"
  shows "srv_join ws code s =
           (s\<lparr>rooms := AList.update code (admit ws r) (fst (getRoom code (rooms s))),
              objs := (objs s)(ws := (objs s ws)\<lparr>currentRoom := Some code\<rparr>)\<rparr>,
            Send ws (Joined code (chooseSide r))
            # (case otherClient (admit ws r) ws of
                 Some p \<Rightarrow> (if is_open (objs s) p then [Send p (PeerJoined (chooseSide r))] else [])
               | None \<Rightarrow> []))"
  using assms
  by (cases "getRoom code (rooms s)")
     (auto simp: srv_join_def Let_def admit_def assignSide_def chooseSide_def is_open_def
           split: option.splits)

lemma srv_join_success:
  assumes ok: "registry_ok (rooms s)"
    and res: "srv_join ws code s = (s', out)" and j: "Send ws (Joined c' sd) \<in> set out"
  shows "c' = code \<and> joined_ok s ws code sd s' out"
proof -
  define r0 where "r0 = snd (getRoom code (rooms s))"
  from ok have d: "distinct (map fst (rooms s))"
    and rok: "\<And>c r. map_of (rooms s) c = Some r \<Longrightarrow> room_ok r"
    by (auto simp: registry_ok_iff)
  have r0: "map_of (rooms s) code = None \<and> r0 = empty_room \<or> map_of (rooms s) code = Some r0"
    by (auto simp: r0_def snd_getRoom split: option.splits)
  have wf: "room_wf r0"
    using r0 by (auto simp: room_wf_empty dest: rok room_ok_imp_wf)
  have small: "length (clients r0) < 2"
  proof (rule ccontr)
    assume "\<not> length (clients r0) < 2"
    then have f: "length (clients r0) \<ge> 2" by simp
    with r0 have "map_of (rooms s) code = Some r0" by (auto simp: empty_room_def)
    from srv_join_full[OF this f, of ws] res j show False by auto
  qed
  note eq = srv_join_small[OF r0_def[symmetric] small, of ws]
  from admit_small[OF wf small] have aok: "room_ok (admit ws r0)" by simp
  from eq res have s': "s' = s\<lparr>rooms := AList.update code (admit ws r0) (fst (getRoom code (rooms s))),
              objs := (objs s)(ws := (objs s ws)\<lparr>currentRoom := Some code\<rparr>)\<rparr>"
    and out: "out = Send ws (Joined code (chooseSide r0))
            # (case otherClient (admit ws r0) ws of
                 Some p \<Rightarrow> (if is_open (objs s) p then [Send p (PeerJoined (chooseSide r0))] else [])
               | None \<Rightarrow> [])"
    by simp_all
  from j out have cs: "c' = code" "sd = chooseSide r0"
    by (auto split: option.splits if_splits)
  have m: "map_of (rooms s') code = Some (admit ws r0)"
    by (simp add: s' AList.update_conv')
  have notif: "Send c (PeerJoined sd) \<in> set out"
    if "c \<in> set (clients (admit ws r0))" "c \<noteq> ws" "is_open (objs s) c" for c
  proof -
    have "ws \<in> set (clients (admit ws r0))" by (simp add: clients_admit)
    from relay_targets(1)[OF aok this that(1)] that(2)
    have "otherClient (admit ws r0) ws = Some c" by simp
    with that(3) show ?thesis by (simp add: out cs)
  qed
  have fresh: "map_of (rooms s) code = None \<Longrightarrow> sd = Some SideX"
    using r0 by (auto simp: cs chooseSide_def empty_room_def)
  have second: "sd = Some SideO"
    if "map_of (rooms s) code = Some r" "clients r = [a]" "map_of (sides r) a = Some (Some SideX)"
    for r a
    using that r0 wf by (auto simp: cs intro: chooseSide_second)
  from m notif fresh second show ?thesis
    unfolding joined_ok_def cs(1)
    by (auto simp: clients_admit sides_admit cs(2) split: option.splits)
qed

lemma evict_keeps_other:
  assumes "distinct (clients r)" "ws \<in> set (clients r)" "clients r \<noteq> [ws]"
  shows "clients (evict ws r) \<noteq> []"
proof -
  obtain x xs where x: "clients r = x # xs" using assms(2) by (cases "clients r") auto
  with assms(3) have "xs \<noteq> [] \<or> x \<noteq> ws" by auto
  with x assms(1,2) obtain y where "y \<in> set (clients r)" "y \<noteq> ws"
    by (cases xs) auto
  then have "y \<in> set (clients (evict ws r))" by (simp add: clients_evict)
  then show ?thesis by auto
qed

lemma p0_join_kept:
  assumes ok: "registry_ok (rooms s)"
    and no: "\<And>r. map_of (rooms s) code = Some r \<Longrightarrow> clients r \<noteq> [ws]"
  shows "\<exists>q. map_of (fst (leaveEverywhere os ws (fst (getRoom code (rooms s))))) code = Some q
           \<and> room_wf q
           \<and> (map_of (rooms s) code = None \<longrightarrow> q = empty_room)
           \<and> (\<forall>r. map_of (rooms s) code = Some r \<and> ws \<notin> set (clients r) \<longrightarrow> q = r)"
proof -
  define rs1 where "rs1 = fst (getRoom code (rooms s))"
  define r0 where "r0 = snd (getRoom code (rooms s))"
  from ok have d: "distinct (map fst (rooms s))"
    and rok: "\<And>c r. map_of (rooms s) c = Some r \<Longrightarrow> room_ok r"
    by (auto simp: registry_ok_iff)
  have d1: "distinct (map fst rs1)" unfolding rs1_def by (rule distinct_getRoom[OF d])
  have m1: "map_of rs1 code = Some r0" by (simp add: rs1_def r0_def map_of_getRoom)
  have r0: "map_of (rooms s) code = None \<and> r0 = empty_room \<or> map_of (rooms s) code = Some r0"
    by (auto simp: r0_def snd_getRoom split: option.splits)
  have wf: "room_wf r0"
    using r0 by (auto simp: room_wf_empty dest: rok room_ok_imp_wf)
  show ?thesis
  proof (cases "ws \<in> set (clients r0)")
    case False
    from leave_other[OF d1 m1 False, of os] r0 wf show ?thesis
      unfolding rs1_def by auto
  next
    case True
    with r0 have reg: "map_of (rooms s) code = Some r0" by (auto simp: empty_room_def)
    from rok[OF reg] have dc: "distinct (clients r0)" by (simp add: room_ok_def)
    from evict_keeps_other[OF dc True no[OF reg]] have ne: "clients (evict ws r0) \<noteq> []" .
    have "map_of (fst (leaveEverywhere os ws rs1)) code = Some r0
          \<or> map_of (fst (leaveEverywhere os ws rs1)) code = Some (evict ws r0)"
    proof (cases "room_of rs1 ws")
      case None
      with m1 show ?thesis by (simp add: leave_none)
    next
      case (Some p)
      obtain c q where p: "p = (c, q)" by (cases p)
      from room_of_Some_map_of[OF d1 Some[unfolded p]] have cq: "map_of rs1 c = Some q" .
      show ?thesis
      proof (cases "c = code")
        case True
        with cq m1 have "q = r0" by simp
        with True Some p ne map_of_leave[OF d1, of os ws] show ?thesis by simp
      next
        case False
        with m1 Some p map_of_leave[OF d1, of os ws] show ?thesis by simp
      qed
    qed
    with reg True wf room_wf_evict[OF wf, of ws] show ?thesis
      unfolding rs1_def by auto
  qed
qed

lemma p0_join_success:
  assumes ok: "registry_ok (rooms s)"
    and no: "\<And>r. map_of (rooms s) code = Some r \<Longrightarrow> clients r \<noteq> [ws]"
    and res: "p0_join ws code s = (s', out)" and j: "Send ws (Joined c' sd) \<in> set out"
  shows "c' = code \<and> joined_ok s ws code sd s' out"
proof -
  obtain rs1 r0 where g: "getRoom code (rooms s) = (rs1, r0)" by (cases "getRoom code (rooms s)")
  obtain rs2 left where l: "leaveEverywhere (objs s) ws rs1 = (rs2, left)"
    by (cases "leaveEverywhere (objs s) ws rs1")
  from p0_join_kept[where code = code and ws = ws and s = s and os = "objs s", OF ok no] g l obtain q where
    q: "map_of rs2 code = Some q" and wf: "room_wf q"
    and fresh: "map_of (rooms s) code = None \<Longrightarrow> q = empty_room"
    and same: "\<And>r. map_of (rooms s) code = Some r \<Longrightarrow> ws \<notin> set (clients r) \<Longrightarrow> q = r"
    by auto
  have rq: "q = (case map_of rs2 code of Some r' \<Rightarrow> r' | None \<Rightarrow> evict ws r0)"
    using q by simp
  note eq = p0_join_eq[OF g l rq]
  from leave_sends[of _ "objs s" ws rs1] l have nl: "Send ws (Joined c' sd) \<notin> set left"
    by fastforce
  have free: "chooseSide q \<noteq> None"
  proof
    assume "chooseSide q = None"
    with eq res have "out = left @ [Send ws (ErrorMsg room_full)]" by simp
    with j nl show False by simp
  qed
  from eq res free q have s': "s' = s\<lparr>rooms := AList.update code (admit ws q) rs2\<rparr>"
    and out: "out = left @ [Send ws (Joined code (chooseSide q))]
                    @ broadcast (objs s) (admit ws q) (PeerJoined (chooseSide q)) (Some ws)"
    by auto
  from j out nl have cs: "c' = code" "sd = chooseSide q"
    by (auto dest: broadcast_sends)
  have m: "map_of (rooms s') code = Some (admit ws q)"
    by (simp add: s' AList.update_conv')
  have notif: "Send c (PeerJoined sd) \<in> set out"
    if "c \<in> set (clients (admit ws q))" "c \<noteq> ws" "is_open (objs s) c" for c
    using that by (simp add: out cs broadcast_def)
  have first: "map_of (rooms s) code = None \<Longrightarrow> sd = Some SideX"
    using fresh by (simp add: cs chooseSide_def empty_room_def)
  have second: "sd = Some SideO"
    if "map_of (rooms s) code = Some r" "a \<noteq> ws" "clients r = [a]"
       "map_of (sides r) a = Some (Some SideX)" for r a
  proof -
    from that(2,3) have "ws \<notin> set (clients r)" by simp
    from same[OF that(1) this] have "q = r" .
    with wf that(3,4) show ?thesis by (simp add: cs chooseSide_second)
  qed
  from m notif first second show ?thesis
    unfolding joined_ok_def cs(1)
    by (auto simp: clients_admit sides_admit cs(2) split: option.splits)
qed

text \<open>
  The second relay, asked by the only member of a room to join that same room: the
  join is answered, and the room is gone from the registry. \<open>leaveEverywhere\<close> has
  deleted the emptied room, and the handler adds the connection to the object it
  still holds.
\<close>

lemma p0_rejoin_alone_unregistered:
  "map_option snd
     (p0_run [Connection, Message 0 (Some (join_msg (units ''abc''))),
              Message 0 (Some (join_msg (units ''abc'')))])
     = Some [Send 0 (Joined (units ''abc'') (Some SideX)),
             Send 0 (Joined (units ''abc'') (Some SideX))]
   \<and> map_option (rooms \<circ> fst)
     (p0_run [Connection, Message 0 (Some (join_msg (units ''abc''))),
              Message 0 (Some (join_msg (units ''abc'')))])
     = Some []"
  by (simp add: eval_defs)

lemma p0_join_outside_eq:
  "registry_ok (rooms s) \<Longrightarrow> room_of (rooms s) ws = None
     \<Longrightarrow> p0_join ws code s = join_outside ws code s"
  by (simp add: join_outside_def p0_join_outside)

lemma join_outside_full:
  "target_full (rooms s) code \<Longrightarrow> join_outside ws code s = (s, [Send ws (ErrorMsg room_full)])"
  by (auto simp: join_outside_def target_full_def split: option.splits)

lemma join_outside_member:
  assumes "\<not> target_full (rooms s) code"
  shows "member_of (rooms (fst (join_outside ws code s))) code ws"
  using assms
  by (auto simp: join_outside_def target_full_def member_of_def map_add_def clients_admit
                 AList.update_conv' split: option.splits)

lemma join_outside_other:
  assumes "c \<noteq> code"
  shows "map_of (rooms (fst (join_outside ws code s))) c = map_of (rooms s) c"
  using assms
  by (auto simp: join_outside_def map_add_def AList.update_conv' split: option.splits)

lemma srv_join_other:
  assumes "c \<noteq> code"
  shows "map_of (rooms (fst (srv_join ws code s))) c = map_of (rooms s) c"
proof (cases "length (clients (snd (getRoom code (rooms s)))) < 2")
  case True
  from srv_join_admit[OF refl True, of ws] assms show ?thesis
    by (simp add: AList.update_conv' map_of_getRoom)
next
  case False
  then obtain r where "map_of (rooms s) code = Some r" "length (clients r) \<ge> 2"
    by (auto simp: snd_getRoom empty_room_def split: option.splits)
  from srv_join_full[OF this, of ws] show ?thesis by simp
qed

lemma srv_join_no_peer_left: "Send c (PeerLeft x) \<notin> set (snd (srv_join ws code s))"
  by (cases "getRoom code (rooms s)")
     (auto simp: srv_join_def Let_def split: option.splits if_splits)

lemma p0_on_close_member:
  assumes ok: "registry_ok (rooms s)" and sg: "single_room (rooms s)"
    and old: "map_of (rooms s) old = Some r" "ws \<in> set (clients r)"
  shows "p0_on_close ws s =
           (s\<lparr>rooms := (if clients (evict ws r) = [] then AList.delete old (rooms s)
                         else AList.update old (evict ws r) (rooms s))\<rparr>,
            broadcast (objs s) (evict ws r) (PeerLeft (Some old)) None)"
proof -
  from ok have d: "distinct (map fst (rooms s))" by (simp add: registry_ok_def)
  from room_of_single[OF d sg old] show ?thesis
    by (simp add: p0_on_close_eq leaveEverywhere_eq)
qed

lemma p0_on_close_other:
  assumes ok: "registry_ok (rooms s)" and sg: "single_room (rooms s)"
    and old: "map_of (rooms s) old = Some r" "ws \<in> set (clients r)" and ne: "c \<noteq> old"
  shows "map_of (rooms (fst (p0_on_close ws s))) c = map_of (rooms s) c"
  unfolding p0_on_close_member[OF ok sg old] using ne
  by (simp add: AList.update_conv' AList.delete_conv')

lemma p0_on_close_old:
  assumes ok: "registry_ok (rooms s)" and sg: "single_room (rooms s)"
    and old: "map_of (rooms s) old = Some r" "ws \<in> set (clients r)"
  shows "map_of (rooms (fst (p0_on_close ws s))) old
           = (if clients (evict ws r) = [] then None else Some (evict ws r))"
  unfolding p0_on_close_member[OF ok sg old]
  by (simp add: AList.update_conv' AList.delete_conv')

lemma p0_on_close_ok:
  assumes ok: "registry_ok (rooms s)" and sg: "single_room (rooms s)"
  shows "registry_ok (rooms (fst (p0_on_close ws s)))"
    and "room_of (rooms (fst (p0_on_close ws s))) ws = None"
proof -
  from ok have d: "distinct (map fst (rooms s))" by (simp add: registry_ok_def)
  show "registry_ok (rooms (fst (p0_on_close ws s)))"
    using registry_ok_leave[OF ok, of "objs s" ws] by (simp add: p0_on_close_eq)
  show "room_of (rooms (fst (p0_on_close ws s))) ws = None"
    using room_of_after_leave[OF d sg, of "objs s" ws] by (simp add: p0_on_close_eq)
qed

lemma p0_rejoin:
  assumes ok: "registry_ok (rooms s)" and sg: "single_room (rooms s)"
    and old: "map_of (rooms s) old = Some r" "ws \<in> set (clients r)" and ne: "code \<noteq> old"
  shows "p0_join ws code s =
           (fst (join_outside ws code (fst (p0_on_close ws s))),
            snd (p0_on_close ws s) @ snd (join_outside ws code (fst (p0_on_close ws s))))"
proof -
  from ok have d: "distinct (map fst (rooms s))" by (simp add: registry_ok_def)
  have nm: "\<not> member_of (rooms s) code ws"
  proof
    assume "member_of (rooms s) code ws"
    then obtain q where "map_of (rooms s) code = Some q" "ws \<in> set (clients q)"
      by (auto simp: member_of_def split: option.splits)
    from single_room_D[OF d sg this(1) old(1) this(2) old(2)] ne show False by simp
  qed
  from p0_join_leaves_first[OF ok sg nm]
       p0_join_outside_eq[OF p0_on_close_ok[OF ok sg, of ws], of code]
  show ?thesis by simp
qed

section \<open>The sweep of server.js\<close>

lemma srv_sweep_each_flag:
  "srv_sweep_each cs os = (os', acts) \<Longrightarrow> isAlive (os' w) \<Longrightarrow> isAlive (os w)"
proof (induction cs arbitrary: os os' acts)
  case Nil
  then show ?case by simp
next
  case (Cons c cs)
  show ?case
  proof (cases "isAlive (os c)")
    case True
    obtain o1 a1 where r: "srv_sweep_each cs (os(c := (os c)\<lparr>isAlive := False\<rparr>)) = (o1, a1)"
      by (cases "srv_sweep_each cs (os(c := (os c)\<lparr>isAlive := False\<rparr>))")
    with Cons.prems(1) True have "os' = o1" by auto
    with Cons.IH[OF r] Cons.prems(2) have "isAlive ((os(c := (os c)\<lparr>isAlive := False\<rparr>)) w)"
      by simp
    then show ?thesis by (cases "w = c") auto
  next
    case False
    obtain o1 a1 where r: "srv_sweep_each cs os = (o1, a1)" by (cases "srv_sweep_each cs os")
    with Cons.prems(1) False have "os' = o1" by auto
    with Cons.IH[OF r] Cons.prems(2) show ?thesis by simp
  qed
qed

text \<open>
  The sweep of \<open>server.js\<close> handles every tracked connection: one whose flag is false
  is terminated, any other is flagged false and pinged.
\<close>

lemma srv_sweep_each_all:
  assumes "srv_sweep_each cs os = (os', acts)" "ws \<in> set cs"
  shows "(\<not> isAlive (os ws) \<longrightarrow> Terminate ws \<in> set acts)
       \<and> (isAlive (os ws) \<longrightarrow> Ping ws \<in> set acts \<and> \<not> isAlive (os' ws))"
  using assms
proof (induction cs arbitrary: os os' acts)
  case Nil
  then show ?case by simp
next
  case (Cons c cs)
  show ?case
  proof (cases "isAlive (os c)")
    case True
    obtain o1 a1 where r: "srv_sweep_each cs (os(c := (os c)\<lparr>isAlive := False\<rparr>)) = (o1, a1)"
      by (cases "srv_sweep_each cs (os(c := (os c)\<lparr>isAlive := False\<rparr>))")
    with Cons.prems(1) True have e: "os' = o1" "acts = Ping c # a1" by auto
    show ?thesis
    proof (cases "ws = c")
      case True
      from srv_sweep_each_flag[OF r, of c] have "\<not> isAlive (o1 c)" by auto
      with True \<open>isAlive (os c)\<close> e show ?thesis by simp
    next
      case False
      with Cons.prems(2) have "ws \<in> set cs" by simp
      from Cons.IH[OF r this] False e show ?thesis by simp
    qed
  next
    case False
    obtain o1 a1 where r: "srv_sweep_each cs os = (o1, a1)" by (cases "srv_sweep_each cs os")
    with Cons.prems(1) False have e: "os' = o1" "acts = Terminate c # a1" by auto
    show ?thesis
    proof (cases "ws = c")
      case True
      with False e show ?thesis by simp
    next
      case False
      with Cons.prems(2) have "ws \<in> set cs" by simp
      from Cons.IH[OF r this] e show ?thesis by simp
    qed
  qed
qed

text \<open>
  So in \<open>server.js\<close> a tracked connection whose flag is still false at a tick, as the
  preceding tick left it when no pong came, is terminated.
\<close>

lemma srv_two_sweeps:
  assumes "ws \<in> set (wss_clients s)" "srv_sweep s = (s1, a1)"
    and "ws \<in> set (wss_clients s2)" "isAlive (objs s2 ws) = isAlive (objs s1 ws)"
    and "srv_sweep s2 = (s3, a3)"
  shows "Terminate ws \<in> set a1 \<or> Terminate ws \<in> set a3"
proof -
  obtain o1 where e1: "srv_sweep_each (wss_clients s) (objs s) = (o1, a1)" and s1: "objs s1 = o1"
    using assms(2) by (auto simp: srv_sweep_def split: prod.splits)
  obtain o3 where e3: "srv_sweep_each (wss_clients s2) (objs s2) = (o3, a3)"
    using assms(5) by (auto simp: srv_sweep_def split: prod.splits)
  show ?thesis
  proof (cases "isAlive (objs s ws)")
    case False
    with srv_sweep_each_all[OF e1 assms(1)] show ?thesis by simp
  next
    case True
    with srv_sweep_each_all[OF e1 assms(1)] s1 have "\<not> isAlive (objs s1 ws)" by simp
    with assms(4) have "\<not> isAlive (objs s2 ws)" by simp
    with srv_sweep_each_all[OF e3 assms(3)] show ?thesis by simp
  qed
qed

section \<open>The liveness sweep\<close>

text \<open>
  C9. At a tick every tracked connection is to be handled: terminated when its flag is
  false, flagged and pinged otherwise. Two connections that both missed their pong:
  the sweep of \<open>server.js\<close> terminates both, the sweep of the second relay returns at
  the first one and leaves the second untouched.
\<close>

theorem p0_sweep_stops_at_first_dead:
  "map_option snd (p0_run [Connection, Connection, Tick, Tick])
     = Some [Ping 0, Ping 1, Terminate 0]
   \<and> map_option snd (srv_run [Connection, Connection, Tick, Tick])
     = Some [Ping 0, Ping 1, Terminate 0, Terminate 1]"
  by (simp add: eval_defs)

section \<open>The room invariant holds in every reachable state\<close>

text \<open>
  C1. In every state that a run of either relay reaches, and so after every join, move,
  reset and close that a run performs, every room of the registry has at most two
  members, a role for exactly its members, no role twice, and at least one member:
  a room without members does not stay in the registry.
\<close>

theorem registry_invariant:
  "(srv_run evs = Some (s, acts) \<longrightarrow> registry_ok (rooms s))
   \<and> (p0_run evs' = Some (s', acts') \<longrightarrow> registry_ok (rooms s'))"
  using srv_run_inv[of evs s acts] p0_run_inv[of evs' s' acts']
  by (auto simp: srv_inv_def p0_inv_def)

theorem registry_invariant_witness:
  "(\<exists>s acts. srv_run [Connection, Connection, Message 0 (Some (join_msg (units ''abc''))),
        Message 1 (Some (join_msg (units ''abc''))), Closed 0] = Some (s, acts)
      \<and> registry_ok (rooms s))
   \<and> (\<exists>s acts. p0_run [Connection, Connection, Message 0 (Some (join_msg (units ''abc''))),
        Message 1 (Some (join_msg (units ''abc''))), Closed 0] = Some (s, acts)
      \<and> registry_ok (rooms s))"
proof -
  let ?evs = "[Connection, Connection, Message 0 (Some (join_msg (units ''abc''))),
        Message 1 (Some (join_msg (units ''abc''))), Closed 0]"
  obtain s acts where a: "srv_run ?evs = Some (s, acts)"
    by (simp add: eval_defs)
  obtain s' acts' where b: "p0_run ?evs = Some (s', acts')"
    by (simp add: eval_defs)
  from registry_invariant[of ?evs s acts ?evs s' acts'] a b show ?thesis by blast
qed

section \<open>Relaying and the registry\<close>

text \<open>
  A frame that does not parse, a move and a reset leave the whole state of
  \<open>server.js\<close> as it was, in every state that a run reaches and for every connection
  that can still send: the handler calls \<open>getRoom\<close>, which creates a missing room, but
  the room of the cached code exists there. The second relay only looks rooms up, and
  whenever its handler returns, the state is as it was.
\<close>

lemma relay_frame_returns:
  assumes "raw = None \<or> (\<exists>m. raw = Some m \<and> is_relay_msg m)"
  shows "(srv_run evs = Some (s, acts) \<and> ws \<in> set (wss_clients s)
            \<longrightarrow> (\<exists>out. srv_on_message ws raw s = Inr (s, out)))
         \<and> (p0_on_message ws' raw s' \<noteq> Inl TypeError
            \<longrightarrow> (\<exists>out. p0_on_message ws' raw s' = Inr (s', out)))"
proof (cases raw)
  case None
  then show ?thesis by (simp add: srv_on_message_def p0_on_message_def)
next
  case (Some m)
  with assms have r: "is_relay_msg m" by simp
  from srv_relay_frame[OF srv_run_inv _ r, of evs s acts ws] p0_relay_frame[OF r, of ws' s'] Some
  show ?thesis by blast
qed

text \<open>
  C10. Every move and every reset is to leave the registry as it was. The second relay
  reads the room of a move and of a reset with \<open>String(m.room || '')\<close> outside any
  \<open>try\<close>; for the frame \<open>{"t":"move","room":{"toString":null}}\<close> the conversion throws,
  in every state, and the exception leaves the handler: after two connections have
  joined room \<open>abc\<close>, the relay has no state after that frame, nor after the same frame
  with \<open>reset\<close>, and the registry is lost with the process. \<open>server.js\<close> compares the
  room with the cached code without converting it: on the same frames it answers
  \<open>not_joined\<close> and keeps both members of \<open>abc\<close>.
\<close>

theorem p0_relay_room_conversion_throws:
  "p0_on_message ws
     (Some (JObj [(units ''t'', JStr (units ''move'')),
                  (units ''room'', JObj [(units ''toString'', JNull)])])) s = Inl TypeError
   \<and> p0_on_message ws
     (Some (JObj [(units ''t'', JStr (units ''reset'')),
                  (units ''room'', JObj [(units ''toString'', JNull)])])) s = Inl TypeError
   \<and> map_option (rooms \<circ> fst)
       (p0_run [Connection, Connection, Message 0 (Some (join_msg (units ''abc''))),
                Message 1 (Some (join_msg (units ''abc'')))])
     = Some [(units ''abc'', \<lparr>clients = [0, 1], sides = [(0, Some SideX), (1, Some SideO)]\<rparr>)]
   \<and> p0_run [Connection, Connection, Message 0 (Some (join_msg (units ''abc''))),
              Message 1 (Some (join_msg (units ''abc''))),
              Message 0 (Some (JObj [(units ''t'', JStr (units ''move'')),
                                     (units ''room'', JObj [(units ''toString'', JNull)])]))]
     = None
   \<and> p0_run [Connection, Connection, Message 0 (Some (join_msg (units ''abc''))),
              Message 1 (Some (join_msg (units ''abc''))),
              Message 0 (Some (JObj [(units ''t'', JStr (units ''reset'')),
                                     (units ''room'', JObj [(units ''toString'', JNull)])]))]
     = None
   \<and> map_option (\<lambda>p. (rooms (fst p), received 0 (snd p), received 1 (snd p)))
       (srv_run [Connection, Connection, Message 0 (Some (join_msg (units ''abc''))),
                 Message 1 (Some (join_msg (units ''abc''))),
                 Message 0 (Some (JObj [(units ''t'', JStr (units ''move'')),
                                        (units ''room'', JObj [(units ''toString'', JNull)])]))])
     = Some ([(units ''abc'', \<lparr>clients = [0, 1], sides = [(0, Some SideX), (1, Some SideO)]\<rparr>)],
             [Joined (units ''abc'') (Some SideX), PeerJoined (Some SideO), ErrorMsg not_joined],
             [Joined (units ''abc'') (Some SideO)])"
proof -
  have 1: "p0_on_message ws
     (Some (JObj [(units ''t'', JStr (units ''move'')),
                  (units ''room'', JObj [(units ''toString'', JNull)])])) s = Inl TypeError"
    by (simp add: p0_on_message_def String_or_empty_def units_def Let_def)
  have 2: "p0_on_message ws
     (Some (JObj [(units ''t'', JStr (units ''reset'')),
                  (units ''room'', JObj [(units ''toString'', JNull)])])) s = Inl TypeError"
    by (simp add: p0_on_message_def String_or_empty_def units_def Let_def)
  have 3: "map_option (rooms \<circ> fst)
       (p0_run [Connection, Connection, Message 0 (Some (join_msg (units ''abc''))),
                Message 1 (Some (join_msg (units ''abc'')))])
     = Some [(units ''abc'', \<lparr>clients = [0, 1], sides = [(0, Some SideX), (1, Some SideO)]\<rparr>)]"
    by (simp add: eval_defs)
  have 4: "p0_run [Connection, Connection, Message 0 (Some (join_msg (units ''abc''))),
              Message 1 (Some (join_msg (units ''abc''))),
              Message 0 (Some (JObj [(units ''t'', JStr (units ''move'')),
                                     (units ''room'', JObj [(units ''toString'', JNull)])]))]
     = None"
    by (simp add: eval_defs)
  have 5: "p0_run [Connection, Connection, Message 0 (Some (join_msg (units ''abc''))),
              Message 1 (Some (join_msg (units ''abc''))),
              Message 0 (Some (JObj [(units ''t'', JStr (units ''reset'')),
                                     (units ''room'', JObj [(units ''toString'', JNull)])]))]
     = None"
    by (simp add: eval_defs)
  have 6: "map_option (\<lambda>p. (rooms (fst p), received 0 (snd p), received 1 (snd p)))
       (srv_run [Connection, Connection, Message 0 (Some (join_msg (units ''abc''))),
                 Message 1 (Some (join_msg (units ''abc''))),
                 Message 0 (Some (JObj [(units ''t'', JStr (units ''move'')),
                                        (units ''room'', JObj [(units ''toString'', JNull)])]))])
     = Some ([(units ''abc'', \<lparr>clients = [0, 1], sides = [(0, Some SideX), (1, Some SideO)]\<rparr>)],
             [Joined (units ''abc'') (Some SideX), PeerJoined (Some SideO), ErrorMsg not_joined],
             [Joined (units ''abc'') (Some SideO)])"
    by (simp add: eval_defs)
  from 1 2 3 4 5 6 show ?thesis by blast
qed

section \<open>Relaying a move\<close>

text \<open>
  C6, as stated, fails where the code has a guard, and where \<open>JSON.stringify\<close> has no
  text for a number: a member whose connection is not OPEN is skipped; \<open>server.js\<close>
  answers \<open>not_joined\<close> to a member whose cached room code is another room (it joined
  that one later, and \<open>server.js\<close> never takes a connection out of the room it joined
  before); and the data \<open>1e400\<close>, which is parsed as \<open>Infinity\<close>, is sent on as \<open>null\<close>.
\<close>

theorem move_round_trip_counterexample:
  "map_option (received 1 \<circ> snd)
     (p0_run [Connection, Connection, Message 0 (Some (join_msg (units ''abc''))),
              Message 1 (Some (join_msg (units ''abc''))), Closing 1,
              Message 0 (Some (move_msg (units ''abc'') (JNum (units ''1''))))])
     = Some [Joined (units ''abc'') (Some SideO)]
   \<and> map_option (received 1 \<circ> snd)
     (srv_run [Connection, Connection, Message 0 (Some (join_msg (units ''abc''))),
              Message 1 (Some (join_msg (units ''abc''))), Closing 1,
              Message 0 (Some (move_msg (units ''abc'') (JNum (units ''1''))))])
     = Some [Joined (units ''abc'') (Some SideO)]
   \<and> map_option snd
     (srv_run [Connection, Connection, Message 0 (Some (join_msg (units ''abc''))),
              Message 1 (Some (join_msg (units ''abc''))),
              Message 0 (Some (join_msg (units ''xyz''))),
              Message 0 (Some (move_msg (units ''abc'') (JNum (units ''1''))))])
     = Some [Send 0 (Joined (units ''abc'') (Some SideX)),
             Send 1 (Joined (units ''abc'') (Some SideO)),
             Send 0 (PeerJoined (Some SideO)),
             Send 0 (Joined (units ''xyz'') (Some SideX)),
             Send 0 (ErrorMsg not_joined)]
   \<and> map_option (received 1 \<circ> snd)
     (p0_run [Connection, Connection, Message 0 (Some (join_msg (units ''abc''))),
              Message 1 (Some (join_msg (units ''abc''))),
              Message 0 (Some (move_msg (units ''abc'') (JNum (units ''Infinity''))))])
     = Some [Joined (units ''abc'') (Some SideO), MoveMsg (Some (Some SideX)) (Some JNull)]
   \<and> map_option (received 1 \<circ> snd)
     (srv_run [Connection, Connection, Message 0 (Some (join_msg (units ''abc''))),
              Message 1 (Some (join_msg (units ''abc''))),
              Message 0 (Some (move_msg (units ''abc'') (JNum (units ''Infinity''))))])
     = Some [Joined (units ''abc'') (Some SideO), MoveMsg (Some (Some SideX)) (Some JNull)]"
  by (simp add: eval_defs)

text \<open>
  C6, amended. In a registered room with the two members \<open>a\<close> and \<open>b\<close>, \<open>a\<close> holding
  the first role and the connection of \<open>b\<close> OPEN, a move of \<open>a\<close> for that room (in
  \<open>server.js\<close>: the room of its cached code) is sent to \<open>b\<close> and to nobody else, as a
  move from the first role with the data of the message as \<open>JSON.stringify\<close> writes it:
  the very data when it holds no number beyond the range of a double and no negative
  zero, and the data with \<open>null\<close> for every such number and \<open>0\<close> for every negative zero
  otherwise; \<open>b\<close> holds the second role, and the state is unchanged.
\<close>

theorem move_round_trip:
  assumes "registry_ok (rooms s)" "map_of (rooms s) code = Some r"
    and "a \<in> set (clients r)" "b \<in> set (clients r)" "a \<noteq> b"
    and "map_of (sides r) a = Some (Some SideX)" "is_open (objs s) b"
    and "get_prop (units ''t'') m = Some (JStr (units ''move''))"
  shows "map_of (sides r) b = Some (Some SideO)
    \<and> (get_prop (units ''room'') m = Some (JStr code) \<and> code \<noteq> []
          \<and> currentRoom (objs s a) = Some code
        \<longrightarrow> srv_on_message a (Some m) s
              = Inr (s, [Send b (MoveMsg (Some (Some SideX))
                                  (map_option json_wire (get_prop (units ''data'') m)))]))
    \<and> (String_or_empty (get_prop (units ''room'') m) = Inr str \<and> trim str = code
        \<longrightarrow> p0_on_message a (Some m) s
              = Inr (s, [Send b (MoveMsg (Some (Some SideX))
                                  (map_option json_wire (get_prop (units ''data'') m)))]))
    \<and> (get_prop (units ''data'') m = Some d \<and> writes_back d
        \<longrightarrow> map_option json_wire (get_prop (units ''data'') m) = Some d)
    \<and> (get_prop (units ''data'') m = None
        \<longrightarrow> map_option json_wire (get_prop (units ''data'') m) = None)"
proof -
  from assms(1,2) have ok: "room_ok r" by (auto simp: registry_ok_iff)
  have rel: "is_relay_msg m" using assms(8) by (simp add: is_relay_msg_def)
  note nj = is_relay_msg_not_join[OF rel]
  note tg = relay_targets[OF ok assms(3,4,5)]
  have g: "getRoom code (rooms s) = (rooms s, r)" using assms(2) by (simp add: getRoom_def)
  have 1: "map_of (sides r) b = Some (Some SideO)"
    by (rule second_side[OF ok assms(3,4,5,6)])
  have 2: "srv_on_message a (Some m) s
              = Inr (s, [Send b (MoveMsg (Some (Some SideX))
                                  (map_option json_wire (get_prop (units ''data'') m)))])"
    if "get_prop (units ''room'') m = Some (JStr code)" "code \<noteq> []"
       "currentRoom (objs s a) = Some code"
    using that nj g tg(1) assms(6,7,8)
    by (simp add: srv_on_message_def Let_def sideFor_def)
  have 3: "p0_on_message a (Some m) s
              = Inr (s, [Send b (MoveMsg (Some (Some SideX))
                                  (map_option json_wire (get_prop (units ''data'') m)))])"
    if "String_or_empty (get_prop (units ''room'') m) = Inr str" "trim str = code"
    using that nj assms(2,3,6,7,8) tg(2)
    by (simp add: p0_on_message_def Let_def units_def)
  have 4: "map_option json_wire (get_prop (units ''data'') m) = Some d"
    if "get_prop (units ''data'') m = Some d" "writes_back d"
    using that by (simp add: json_wire_id)
  from 1 2 3 4 show ?thesis by simp
qed

theorem move_round_trip_witness:
  "(\<exists>s acts.
     p0_run [Connection, Connection, Message 0 (Some (join_msg (units ''abc''))),
             Message 1 (Some (join_msg (units ''abc'')))] = Some (s, acts)
     \<and> registry_ok (rooms s)
     \<and> map_of (rooms s) (units ''abc'')
         = Some \<lparr>clients = [0, 1], sides = [(0, Some SideX), (1, Some SideO)]\<rparr>
     \<and> is_open (objs s) 1
     \<and> writes_back (JObj [(units ''x'', JNum (units ''1''))])
     \<and> p0_on_message 0 (Some (move_msg (units '' abc '') (JObj [(units ''x'', JNum (units ''1''))]))) s
         = Inr (s, [Send 1 (MoveMsg (Some (Some SideX)) (Some (JObj [(units ''x'', JNum (units ''1''))])))]))
   \<and> (\<exists>s acts.
     srv_run [Connection, Connection, Message 0 (Some (join_msg (units ''abc''))),
             Message 1 (Some (join_msg (units ''abc'')))] = Some (s, acts)
     \<and> registry_ok (rooms s)
     \<and> map_of (rooms s) (units ''abc'')
         = Some \<lparr>clients = [0, 1], sides = [(0, Some SideX), (1, Some SideO)]\<rparr>
     \<and> is_open (objs s) 1 \<and> currentRoom (objs s 0) = Some (units ''abc'')
     \<and> srv_on_message 0 (Some (move_msg (units ''abc'') (JObj [(units ''x'', JNum (units ''1''))]))) s
         = Inr (s, [Send 1 (MoveMsg (Some (Some SideX)) (Some (JObj [(units ''x'', JNum (units ''1''))])))]))"
proof -
  let ?evs = "[Connection, Connection, Message 0 (Some (join_msg (units ''abc''))),
             Message 1 (Some (join_msg (units ''abc'')))]"
  let ?r = "\<lparr>clients = [0, 1], sides = [(0, Some SideX), (1, Some SideO)]\<rparr>"
  let ?d = "JObj [(units ''x'', JNum (units ''1''))]"
  let ?m = "move_msg (units '' abc '') ?d"
  let ?m' = "move_msg (units ''abc'') ?d"
  have fin: "writes_back ?d" by (simp add: units_def)
  obtain s acts where run: "p0_run ?evs = Some (s, acts)"
    and r: "map_of (rooms s) (units ''abc'') = Some ?r"
    and op: "is_open (objs s) 1"
    and ok: "registry_ok (rooms s)"
    by (simp add: eval_defs registry_ok_def room_ok_def)
  have t: "get_prop (units ''t'') ?m = Some (JStr (units ''move''))"
    by (simp add: move_msg_def units_def)
  have c: "String_or_empty (get_prop (units ''room'') ?m) = Inr (units '' abc '')
           \<and> trim (units '' abc '') = units ''abc''"
    by (simp add: eval_defs)
  have d: "get_prop (units ''data'') ?m = Some ?d"
    by (simp add: move_msg_def units_def)
  from move_round_trip[OF ok r _ _ _ _ op t, where a = 0 and str = "units '' abc ''" and d = ?d]
    c d fin
  have 1: "p0_on_message 0 (Some ?m) s = Inr (s, [Send 1 (MoveMsg (Some (Some SideX)) (Some ?d))])"
    by simp
  obtain s' acts' where run': "srv_run ?evs = Some (s', acts')"
    and r': "map_of (rooms s') (units ''abc'') = Some ?r"
    and op': "is_open (objs s') 1"
    and ok': "registry_ok (rooms s')"
    and cur: "currentRoom (objs s' 0) = Some (units ''abc'')"
    by (simp add: eval_defs registry_ok_def room_ok_def)
  have t': "get_prop (units ''t'') ?m' = Some (JStr (units ''move''))"
    by (simp add: move_msg_def units_def)
  have c': "get_prop (units ''room'') ?m' = Some (JStr (units ''abc'')) \<and> units ''abc'' \<noteq> []"
    by (simp add: move_msg_def units_def)
  have d': "get_prop (units ''data'') ?m' = Some ?d"
    by (simp add: move_msg_def units_def)
  from move_round_trip[OF ok' r' _ _ _ _ op' t', where a = 0 and d = ?d] c' d' cur fin
  have 2: "srv_on_message 0 (Some ?m') s' = Inr (s', [Send 1 (MoveMsg (Some (Some SideX)) (Some ?d))])"
    by simp
  from run r op ok fin 1 run' r' op' ok' cur 2 show ?thesis by blast
qed

section \<open>A move or reset from outside the room\<close>

text \<open>
  C7, as stated, fails in \<open>server.js\<close>: a move for a room that the sender never joined
  is answered with \<open>not_joined\<close>.
\<close>

theorem stale_relay_counterexample:
  "map_option snd
     (srv_run [Connection, Message 0 (Some (move_msg (units ''abc'') (JNum (units ''1''))))])
     = Some [Send 0 (ErrorMsg not_joined)]"
  by (simp add: eval_defs)

text \<open>
  C7, amended. The second relay decides membership by the registry: a move or reset of
  a connection that is not a member of the room named by the trimmed string of the room
  field has no reply, relays nothing and leaves the state as it was. \<open>server.js\<close>
  decides by the cached room code of the connection: unless the room field is that
  non-empty string, the sender is sent \<open>not_joined\<close>, nobody else is sent anything, and
  the state is as it was.
\<close>

theorem stale_relay:
  assumes "is_relay_msg m"
  shows "(String_or_empty (get_prop (units ''room'') m) = Inr str
            \<and> \<not> member_of (rooms s) (trim str) ws
          \<longrightarrow> p0_on_message ws (Some m) s = Inr (s, []))
       \<and> (\<not> (\<exists>c. get_prop (units ''room'') m = Some (JStr c) \<and> c \<noteq> []
                  \<and> currentRoom (objs s' ws') = Some c)
          \<longrightarrow> srv_on_message ws' (Some m) s' = Inr (s', [Send ws' (ErrorMsg not_joined)]))"
proof -
  note nj = is_relay_msg_not_join[OF assms]
  have 1: "p0_on_message ws (Some m) s = Inr (s, [])"
    if "String_or_empty (get_prop (units ''room'') m) = Inr str"
       "\<not> member_of (rooms s) (trim str) ws"
    using that nj assms
    by (auto simp: p0_on_message_def is_relay_msg_def member_of_def Let_def split: option.splits)
  have 2: "srv_on_message ws' (Some m) s' = Inr (s', [Send ws' (ErrorMsg not_joined)])"
    if "\<not> (\<exists>c. get_prop (units ''room'') m = Some (JStr c) \<and> c \<noteq> []
                  \<and> currentRoom (objs s' ws') = Some c)"
    using that nj
    by (auto simp: srv_on_message_def Let_def split: option.splits json.splits)
  from 1 2 show ?thesis by blast
qed

theorem stale_relay_witness:
  "(\<exists>s acts.
      p0_run [Connection, Connection, Message 0 (Some (join_msg (units ''abc'')))] = Some (s, acts)
      \<and> \<not> member_of (rooms s) (units ''abc'') 1
      \<and> p0_on_message 1 (Some (move_msg (units ''abc'') (JNum (units ''1'')))) s = Inr (s, []))
   \<and> (\<exists>s acts.
      srv_run [Connection, Connection, Message 0 (Some (join_msg (units ''abc'')))] = Some (s, acts)
      \<and> currentRoom (objs s 1) = None
      \<and> srv_on_message 1 (Some (reset_msg (units ''abc''))) s
          = Inr (s, [Send 1 (ErrorMsg not_joined)]))"
proof -
  let ?evs = "[Connection, Connection, Message 0 (Some (join_msg (units ''abc'')))]"
  let ?m = "move_msg (units ''abc'') (JNum (units ''1''))"
  let ?m' = "reset_msg (units ''abc'')"
  obtain s acts where run: "p0_run ?evs = Some (s, acts)"
    and nm: "\<not> member_of (rooms s) (units ''abc'') 1"
    by (simp add: eval_defs member_of_def)
  have rm: "is_relay_msg ?m" by (simp add: is_relay_msg_def move_msg_def units_def)
  have c: "String_or_empty (get_prop (units ''room'') ?m) = Inr (units ''abc'')
           \<and> trim (units ''abc'') = units ''abc''"
    by (simp add: eval_defs)
  from stale_relay[OF rm, where str = "units ''abc''" and s = s and ws = 1] c nm
  have 1: "p0_on_message 1 (Some ?m) s = Inr (s, [])" by simp
  obtain s' acts' where run': "srv_run ?evs = Some (s', acts')"
    and cur: "currentRoom (objs s' 1) = None"
    by (simp add: eval_defs)
  have rm': "is_relay_msg ?m'" by (simp add: is_relay_msg_def reset_msg_def units_def)
  from stale_relay[OF rm', where s' = s' and ws' = 1] cur
  have 2: "srv_on_message 1 (Some ?m') s' = Inr (s', [Send 1 (ErrorMsg not_joined)])" by simp
  from run nm 1 run' cur 2 show ?thesis by blast
qed

section \<open>The room code of a join\<close>

text \<open>
  C8, as stated, fails in both relays: \<open>server.js\<close> does not trim, so a room of two
  spaces is joined; the second relay converts the room to a string first, so the
  number 5 is joined as the room \<open>5\<close>.
\<close>

theorem join_room_check_counterexample:
  "map_option snd (srv_run [Connection, Message 0 (Some (join_msg [32, 32]))])
     = Some [Send 0 (Joined [32, 32] (Some SideX))]
   \<and> map_option snd
       (p0_run [Connection,
                Message 0 (Some (JObj [(units ''t'', JStr (units ''join'')),
                                       (units ''room'', JNum (units ''5''))]))])
     = Some [Send 0 (Joined (units ''5'') (Some SideX))]"
  by (simp add: eval_defs)

text \<open>
  C8, amended. For a join message, \<open>server.js\<close> answers \<open>missing_room\<close> exactly when the
  room field is not a non-empty string, and otherwise joins under that string as it
  is. The second relay, when \<open>String(room || '')\<close> returns a string, answers
  \<open>missing_room\<close> exactly when that string is empty after trimming, and otherwise
  joins under the trimmed text; for a string room the converted text is the string
  itself. An answer \<open>missing_room\<close> leaves the state as it was, and a join that
  proceeds never answers \<open>missing_room\<close>.
\<close>

theorem join_room_check:
  assumes "get_prop (units ''t'') m = Some (JStr (units ''join''))"
  shows "(\<not> (\<exists>c. get_prop (units ''room'') m = Some (JStr c) \<and> c \<noteq> [])
          \<longrightarrow> srv_on_message ws (Some m) s = Inr (s, [Send ws (ErrorMsg missing_room)]))
       \<and> (get_prop (units ''room'') m = Some (JStr c) \<and> c \<noteq> []
          \<longrightarrow> srv_on_message ws (Some m) s = Inr (srv_join ws c s)
              \<and> Send ws (ErrorMsg missing_room) \<notin> set (snd (srv_join ws c s)))
       \<and> (String_or_empty (get_prop (units ''room'') m) = Inr str \<and> trim str = []
          \<longrightarrow> p0_on_message ws (Some m) s = Inr (s, [Send ws (ErrorMsg missing_room)]))
       \<and> (String_or_empty (get_prop (units ''room'') m) = Inr str \<and> trim str \<noteq> []
          \<longrightarrow> p0_on_message ws (Some m) s = Inr (p0_join ws (trim str) s)
              \<and> Send ws (ErrorMsg missing_room) \<notin> set (snd (p0_join ws (trim str) s)))
       \<and> (get_prop (units ''room'') m = Some (JStr c)
          \<longrightarrow> String_or_empty (get_prop (units ''room'') m) = Inr c)"
proof -
  from assms have nn: "m \<noteq> JNull" "truthy (Some m)" "truthy (get_prop (units ''t'') m)"
    by (cases m; auto simp: units_def)+
  have 1: "srv_on_message ws (Some m) s = Inr (s, [Send ws (ErrorMsg missing_room)])"
    if "\<not> (\<exists>c. get_prop (units ''room'') m = Some (JStr c) \<and> c \<noteq> [])"
    using that assms nn
    by (auto simp: srv_on_message_def Let_def split: option.splits json.splits)
  have 2: "srv_on_message ws (Some m) s = Inr (srv_join ws c s)"
    if "get_prop (units ''room'') m = Some (JStr c)" "c \<noteq> []"
    using that assms nn by (simp add: srv_on_message_def Let_def)
  have 3: "p0_on_message ws (Some m) s = Inr (s, [Send ws (ErrorMsg missing_room)])"
    if "String_or_empty (get_prop (units ''room'') m) = Inr str" "trim str = []"
    using that assms nn by (simp add: p0_on_message_def Let_def)
  have 4: "p0_on_message ws (Some m) s = Inr (p0_join ws (trim str) s)"
    if "String_or_empty (get_prop (units ''room'') m) = Inr str" "trim str \<noteq> []"
    using that assms nn by (simp add: p0_on_message_def Let_def)
  from 1 2 3 4 srv_join_no_missing p0_join_no_missing String_or_empty_JStr
  show ?thesis by simp
qed

theorem join_room_check_witness:
  "srv_on_message 0 (Some (join_msg [])) init = Inr (init, [Send 0 (ErrorMsg missing_room)])
   \<and> srv_on_message 0 (Some (join_msg (units '' a ''))) init = Inr (srv_join 0 (units '' a '') init)
   \<and> p0_on_message 0 (Some (join_msg (units ''  ''))) init = Inr (init, [Send 0 (ErrorMsg missing_room)])
   \<and> p0_on_message 0 (Some (join_msg (units '' a ''))) init = Inr (p0_join 0 (units ''a'') init)"
proof -
  have t: "get_prop (units ''t'') (join_msg c) = Some (JStr (units ''join''))" for c
    by (simp add: join_msg_def units_def)
  have r: "get_prop (units ''room'') (join_msg c) = Some (JStr c)" for c
    by (simp add: join_msg_def units_def)
  have tr: "trim (units ''  '') = []" "trim (units '' a '') = units ''a''"
    by (simp_all add: trim_def is_ws_def units_def)
  have ne: "units '' a '' \<noteq> []" "units ''a'' \<noteq> []" by (simp_all add: units_def)
  from join_room_check[OF t, where c = "[]" and ws = 0 and s = init and str = "[]", of "[]"]
  have 1: "srv_on_message 0 (Some (join_msg [])) init = Inr (init, [Send 0 (ErrorMsg missing_room)])"
    by (simp add: r)
  from join_room_check[OF t, where c = "units '' a ''" and ws = 0 and s = init and str = "[]", of "units '' a ''"]
  have 2: "srv_on_message 0 (Some (join_msg (units '' a ''))) init = Inr (srv_join 0 (units '' a '') init)"
    by (simp add: r ne)
  from join_room_check[OF t, where c = "[]" and ws = 0 and s = init and str = "units ''  ''", of "units ''  ''"]
  have 3: "p0_on_message 0 (Some (join_msg (units ''  ''))) init = Inr (init, [Send 0 (ErrorMsg missing_room)])"
    by (simp add: r tr String_or_empty_JStr)
  from join_room_check[OF t, where c = "[]" and ws = 0 and s = init and str = "units '' a ''", of "units '' a ''"]
  have 4: "p0_on_message 0 (Some (join_msg (units '' a ''))) init = Inr (p0_join 0 (units ''a'') init)"
    by (simp add: r tr String_or_empty_JStr ne)
  from 1 2 3 4 show ?thesis by simp
qed

section \<open>Closing twice\<close>







































section \<open>A join to a full room\<close>

text \<open>
  C2, as stated, fails in the second relay, which leaves the former room before it
  looks at the roles of the target: connection 0, alone in \<open>xyz\<close>, asks for the full room
  \<open>abc\<close>, is answered \<open>room_full\<close>, and \<open>xyz\<close> is gone from the registry.
\<close>

theorem join_full_room_counterexample:
  "map_option (received 0 \<circ> snd)
     (p0_run [Connection, Connection, Connection,
              Message 0 (Some (join_msg (units ''xyz''))),
              Message 1 (Some (join_msg (units ''abc''))),
              Message 2 (Some (join_msg (units ''abc''))),
              Message 0 (Some (join_msg (units ''abc'')))])
     = Some [Joined (units ''xyz'') (Some SideX), ErrorMsg room_full]
   \<and> map_option (map fst \<circ> rooms \<circ> fst)
     (p0_run [Connection, Connection, Connection,
              Message 0 (Some (join_msg (units ''xyz''))),
              Message 1 (Some (join_msg (units ''abc''))),
              Message 2 (Some (join_msg (units ''abc'')))])
     = Some [units ''xyz'', units ''abc'']
   \<and> map_option (map fst \<circ> rooms \<circ> fst)
     (p0_run [Connection, Connection, Connection,
              Message 0 (Some (join_msg (units ''xyz''))),
              Message 1 (Some (join_msg (units ''abc''))),
              Message 2 (Some (join_msg (units ''abc''))),
              Message 0 (Some (join_msg (units ''abc'')))])
     = Some [units ''abc'']"
  by (simp add: eval_defs)

text \<open>
  C2, amended. A join to a registered room whose two roles are taken is answered with
  \<open>room_full\<close>. \<open>server.js\<close> leaves the whole state as it was, whoever the sender is. The
  second relay, for a sender that is not a member of the target, first takes the sender
  out of the room it is in, exactly as its close handler does (a sender in no room
  changes nothing), and leaves the target room as it was.
\<close>

theorem join_full_room:
  assumes "registry_ok (rooms s)" "map_of (rooms s) code = Some r" "both_taken r"
    and "get_prop (units ''t'') m = Some (JStr (units ''join''))" "code \<noteq> []"
  shows "(get_prop (units ''room'') m = Some (JStr code)
          \<longrightarrow> srv_on_message ws (Some m) s = Inr (s, [Send ws (ErrorMsg room_full)]))
       \<and> (String_or_empty (get_prop (units ''room'') m) = Inr str \<and> trim str = code
            \<and> ws \<notin> set (clients r)
          \<longrightarrow> p0_on_message ws (Some m) s
                = Inr (fst (p0_on_close ws s),
                       snd (p0_on_close ws s) @ [Send ws (ErrorMsg room_full)])
              \<and> map_of (rooms (fst (p0_on_close ws s))) code = Some r
              \<and> (room_of (rooms s) ws = None \<longrightarrow> p0_on_close ws s = (s, [])))"
proof -
  from assms(1,2) have "room_wf r" by (auto simp: registry_ok_iff room_ok_wf)
  from both_taken_full[OF this assms(3)] have full: "length (clients r) \<ge> 2" by simp
  have 1: "srv_on_message ws (Some m) s = Inr (s, [Send ws (ErrorMsg room_full)])"
    if "get_prop (units ''room'') m = Some (JStr code)"
    using srv_on_message_join[OF assms(4) that assms(5)] srv_join_full[OF assms(2) full]
    by simp
  have 2: "p0_on_message ws (Some m) s
                = Inr (fst (p0_on_close ws s),
                       snd (p0_on_close ws s) @ [Send ws (ErrorMsg room_full)])"
    if "String_or_empty (get_prop (units ''room'') m) = Inr str" "trim str = code"
       "ws \<notin> set (clients r)"
    using p0_on_message_join[OF assms(4) that(1)] that(2) assms(5)
          p0_join_full(1)[OF assms(1,2,3) that(3)]
    by simp
  have 3: "room_of (rooms s) ws = None \<Longrightarrow> p0_on_close ws s = (s, [])"
    by (simp add: p0_on_close_eq leave_none)
  from 1 2 3 p0_join_full(2)[OF assms(1,2,3)] show ?thesis by blast
qed

theorem join_full_room_witness:
  "(\<exists>s acts.
      srv_run [Connection, Connection, Connection,
               Message 0 (Some (join_msg (units ''abc''))),
               Message 1 (Some (join_msg (units ''abc'')))] = Some (s, acts)
      \<and> map_of (rooms s) (units ''abc'')
          = Some \<lparr>clients = [0, 1], sides = [(0, Some SideX), (1, Some SideO)]\<rparr>
      \<and> srv_on_message 2 (Some (join_msg (units ''abc''))) s
          = Inr (s, [Send 2 (ErrorMsg room_full)]))
   \<and> (\<exists>s acts.
      p0_run [Connection, Connection, Connection,
              Message 0 (Some (join_msg (units ''abc''))),
              Message 1 (Some (join_msg (units ''abc'')))] = Some (s, acts)
      \<and> map_of (rooms s) (units ''abc'')
          = Some \<lparr>clients = [0, 1], sides = [(0, Some SideX), (1, Some SideO)]\<rparr>
      \<and> p0_on_message 2 (Some (join_msg (units ''abc''))) s
          = Inr (s, [Send 2 (ErrorMsg room_full)]))"
proof -
  let ?evs = "[Connection, Connection, Connection,
               Message 0 (Some (join_msg (units ''abc''))),
               Message 1 (Some (join_msg (units ''abc'')))]"
  let ?r = "\<lparr>clients = [0, 1], sides = [(0, Some SideX), (1, Some SideO)]\<rparr>"
  let ?m = "join_msg (units ''abc'')"
  have t: "get_prop (units ''t'') ?m = Some (JStr (units ''join''))"
    by (simp add: join_msg_def units_def)
  have ne: "units ''abc'' \<noteq> []" by (simp add: units_def)
  have rm: "get_prop (units ''room'') ?m = Some (JStr (units ''abc''))"
    by (simp add: join_msg_def units_def)
  have st: "String_or_empty (get_prop (units ''room'') ?m) = Inr (units ''abc'')
            \<and> trim (units ''abc'') = units ''abc''"
    by (simp add: eval_defs)
  have bt: "both_taken ?r" by (simp add: both_taken_def)
  obtain s acts where run: "srv_run ?evs = Some (s, acts)"
    and r: "map_of (rooms s) (units ''abc'') = Some ?r"
    and ok: "registry_ok (rooms s)"
    by (simp add: eval_defs registry_ok_def room_ok_def)
  from join_full_room[OF ok r bt t ne, where ws = 2] rm
  have 1: "srv_on_message 2 (Some ?m) s = Inr (s, [Send 2 (ErrorMsg room_full)])" by simp
  obtain s' acts' where run': "p0_run ?evs = Some (s', acts')"
    and r': "map_of (rooms s') (units ''abc'') = Some ?r"
    and ok': "registry_ok (rooms s')"
    and no: "room_of (rooms s') 2 = None"
    by (simp add: eval_defs registry_ok_def room_ok_def room_of_def)
  from join_full_room[OF ok' r' bt t ne, where ws = 2 and str = "units ''abc''"] st no
  have 2: "p0_on_message 2 (Some ?m) s' = Inr (s', [Send 2 (ErrorMsg room_full)])" by simp
  from run r 1 run' r' 2 show ?thesis by blast
qed

section \<open>A successful join\<close>

text \<open>
  C3, as stated, fails where the code has a guard: a member whose connection is not
  OPEN is not notified. Connection 0 is a member of \<open>abc\<close> and no longer OPEN when
  connection 1 joins: nothing is sent to it.
\<close>

theorem answered_join_counterexample:
  "map_option snd
     (p0_run [Connection, Connection, Message 0 (Some (join_msg (units ''abc''))),
              Closing 0, Message 1 (Some (join_msg (units ''abc'')))])
     = Some [Send 0 (Joined (units ''abc'') (Some SideX)),
             Send 1 (Joined (units ''abc'') (Some SideO))]
   \<and> map_option (rooms \<circ> fst)
     (p0_run [Connection, Connection, Message 0 (Some (join_msg (units ''abc''))),
              Closing 0, Message 1 (Some (join_msg (units ''abc'')))])
     = Some [(units ''abc'',
              \<lparr>clients = [0, 1], sides = [(0, Some SideX), (1, Some SideO)]\<rparr>)]
   \<and> map_option snd
     (srv_run [Connection, Connection, Message 0 (Some (join_msg (units ''abc''))),
              Closing 0, Message 1 (Some (join_msg (units ''abc'')))])
     = Some [Send 0 (Joined (units ''abc'') (Some SideX)),
             Send 1 (Joined (units ''abc'') (Some SideO))]
   \<and> map_option (rooms \<circ> fst)
     (srv_run [Connection, Connection, Message 0 (Some (join_msg (units ''abc''))),
              Closing 0, Message 1 (Some (join_msg (units ''abc'')))])
     = Some [(units ''abc'',
              \<lparr>clients = [0, 1], sides = [(0, Some SideX), (1, Some SideO)]\<rparr>)]"
  by (simp add: eval_defs)

text \<open>
  C3, amended. When a join is answered with \<open>joined\<close>, the reply names the code of the
  join, the sender is a member of the registered room under that code with the role of
  the reply, every other member of that room whose connection is OPEN is sent
  \<open>peer_joined\<close> with that role, the role is the first in a room that was not
  registered, and the second beside a single member that holds the first. For the
  second relay this is stated for a sender that is not the only member of the target
  room.
\<close>

theorem answered_join:
  assumes "registry_ok (rooms s)"
    and "get_prop (units ''t'') m = Some (JStr (units ''join''))" "code \<noteq> []"
    and "Send ws (Joined c' sd) \<in> set out"
  shows "(get_prop (units ''room'') m = Some (JStr code)
            \<and> srv_on_message ws (Some m) s = Inr (s', out)
          \<longrightarrow> c' = code \<and> joined_ok s ws code sd s' out)
       \<and> (String_or_empty (get_prop (units ''room'') m) = Inr str \<and> trim str = code
            \<and> (\<forall>r. map_of (rooms s) code = Some r \<longrightarrow> clients r \<noteq> [ws])
            \<and> p0_on_message ws (Some m) s = Inr (s', out)
          \<longrightarrow> c' = code \<and> joined_ok s ws code sd s' out)"
proof -
  have 1: "c' = code \<and> joined_ok s ws code sd s' out"
    if "get_prop (units ''room'') m = Some (JStr code)"
       "srv_on_message ws (Some m) s = Inr (s', out)"
  proof -
    from srv_on_message_join[OF assms(2) that(1) assms(3), of ws s] that(2)
    have "srv_join ws code s = (s', out)" by simp
    from srv_join_success[OF assms(1) this assms(4)] show ?thesis .
  qed
  have 2: "c' = code \<and> joined_ok s ws code sd s' out"
    if "String_or_empty (get_prop (units ''room'') m) = Inr str" "trim str = code"
       "\<forall>r. map_of (rooms s) code = Some r \<longrightarrow> clients r \<noteq> [ws]"
       "p0_on_message ws (Some m) s = Inr (s', out)"
  proof -
    from p0_on_message_join[OF assms(2) that(1), of ws s] that(2,4) assms(3)
    have res: "p0_join ws code s = (s', out)" by simp
    from that(3) have no: "\<And>r. map_of (rooms s) code = Some r \<Longrightarrow> clients r \<noteq> [ws]"
      by blast
    from p0_join_success[where code = code and ws = ws and s = s, OF assms(1) no res assms(4)]
    show ?thesis .
  qed
  from 1 2 show ?thesis by blast
qed

theorem answered_join_witness:
  "(\<exists>s acts s' out.
      srv_run [Connection, Connection, Message 0 (Some (join_msg (units ''abc'')))] = Some (s, acts)
      \<and> registry_ok (rooms s)
      \<and> srv_on_message 1 (Some (join_msg (units ''abc''))) s = Inr (s', out)
      \<and> out = [Send 1 (Joined (units ''abc'') (Some SideO)), Send 0 (PeerJoined (Some SideO))]
      \<and> joined_ok s 1 (units ''abc'') (Some SideO) s' out)
   \<and> (\<exists>s acts s' out.
      p0_run [Connection, Connection, Message 0 (Some (join_msg (units ''abc'')))] = Some (s, acts)
      \<and> registry_ok (rooms s)
      \<and> p0_on_message 1 (Some (join_msg (units '' abc''))) s = Inr (s', out)
      \<and> out = [Send 1 (Joined (units ''abc'') (Some SideO)), Send 0 (PeerJoined (Some SideO))]
      \<and> joined_ok s 1 (units ''abc'') (Some SideO) s' out)"
proof -
  let ?evs = "[Connection, Connection, Message 0 (Some (join_msg (units ''abc'')))]"
  let ?out = "[Send 1 (Joined (units ''abc'') (Some SideO)), Send 0 (PeerJoined (Some SideO))]"
  have t: "get_prop (units ''t'') (join_msg c) = Some (JStr (units ''join''))" for c
    by (simp add: join_msg_def units_def)
  have ne: "units ''abc'' \<noteq> []" by (simp add: units_def)
  have rm: "get_prop (units ''room'') (join_msg c) = Some (JStr c)" for c
    by (simp add: join_msg_def units_def)
  have st: "String_or_empty (get_prop (units ''room'') (join_msg (units '' abc''))) = Inr (units '' abc'')
            \<and> trim (units '' abc'') = units ''abc''"
    by (simp add: eval_defs)
  have j: "Send 1 (Joined (units ''abc'') (Some SideO)) \<in> set ?out" by simp
  obtain s acts s' where run: "srv_run ?evs = Some (s, acts)"
    and ok: "registry_ok (rooms s)"
    and res: "srv_on_message 1 (Some (join_msg (units ''abc''))) s = Inr (s', ?out)"
    by (simp add: eval_defs registry_ok_def room_ok_def)
  from answered_join[OF ok t[of "units ''abc''"] ne j, where s' = s'] rm res
  have 1: "joined_ok s 1 (units ''abc'') (Some SideO) s' ?out" by simp
  obtain p acts' p' where run': "p0_run ?evs = Some (p, acts')"
    and ok': "registry_ok (rooms p)"
    and res': "p0_on_message 1 (Some (join_msg (units '' abc''))) p = Inr (p', ?out)"
    and no: "\<forall>r. map_of (rooms p) (units ''abc'') = Some r \<longrightarrow> clients r \<noteq> [1]"
    by (simp add: eval_defs registry_ok_def room_ok_def)
  from answered_join[OF ok' t[of "units '' abc''"] ne j, where s' = p' and str = "units '' abc''"]
    st res' no
  have 2: "joined_ok p 1 (units ''abc'') (Some SideO) p' ?out" by simp
  from run ok res 1 run' ok' res' 2 show ?thesis by blast
qed

section \<open>A join from inside another room\<close>

text \<open>
  C4, as stated, fails in \<open>server.js\<close>, whose join has no leave at all: connection 0 of
  room \<open>abc\<close> joins \<open>xyz\<close>, its peer is sent no \<open>peer_left\<close>, and it stays a member of
  \<open>abc\<close>. It also fails in the second relay when the new room is full: the former
  room \<open>xyz\<close> is left and deleted, and connection 0 ends up in no room.
\<close>

theorem join_from_other_room_counterexample:
  "map_option (received 1 \<circ> snd)
     (srv_run [Connection, Connection, Message 0 (Some (join_msg (units ''abc''))),
               Message 1 (Some (join_msg (units ''abc''))),
               Message 0 (Some (join_msg (units ''xyz'')))])
     = Some [Joined (units ''abc'') (Some SideO)]
   \<and> map_option (rooms \<circ> fst)
     (srv_run [Connection, Connection, Message 0 (Some (join_msg (units ''abc''))),
               Message 1 (Some (join_msg (units ''abc''))),
               Message 0 (Some (join_msg (units ''xyz'')))])
     = Some [(units ''abc'', \<lparr>clients = [0, 1], sides = [(0, Some SideX), (1, Some SideO)]\<rparr>),
             (units ''xyz'', \<lparr>clients = [0], sides = [(0, Some SideX)]\<rparr>)]
   \<and> map_option (rooms \<circ> fst)
     (p0_run [Connection, Connection, Connection,
              Message 0 (Some (join_msg (units ''xyz''))),
              Message 1 (Some (join_msg (units ''abc''))),
              Message 2 (Some (join_msg (units ''abc''))),
              Message 0 (Some (join_msg (units ''abc'')))])
     = Some [(units ''abc'', \<lparr>clients = [1, 2], sides = [(1, Some SideX), (2, Some SideO)]\<rparr>)]"
  by (simp add: eval_defs)

text \<open>
  C4, amended. In the second relay, in a state with the room invariant where no
  connection is in two rooms, a join of a member of one room for another room is the
  close handling of the connection followed by the join of a connection that is in no
  room: the remaining open member of the former room is sent \<open>peer_left\<close>, the
  connection is out of that room's members and roles, the room is deleted if that
  emptied it, every third room is as it was; then, if the new room has a free role, the
  connection is a member of it with the role that \<open>chooseSide\<close> finds, and if both its
  roles are taken the sender is answered \<open>room_full\<close> and is in no room. In \<open>server.js\<close>,
  in every state and for every connection, a join with a non-empty string code leaves
  every room other than the target, so the former room too, as it was and sends no
  \<open>peer_left\<close>.
\<close>

theorem join_from_other_room:
  assumes "get_prop (units ''t'') m = Some (JStr (units ''join''))" "code \<noteq> []" "code \<noteq> old"
  shows "(registry_ok (rooms s) \<and> single_room (rooms s)
            \<and> map_of (rooms s) old = Some r \<and> ws \<in> set (clients r)
            \<and> String_or_empty (get_prop (units ''room'') m) = Inr str \<and> trim str = code
          \<longrightarrow> p0_on_close ws s =
                (s\<lparr>rooms := (if clients (evict ws r) = [] then AList.delete old (rooms s)
                              else AList.update old (evict ws r) (rooms s))\<rparr>,
                 broadcast (objs s) (evict ws r) (PeerLeft (Some old)) None)
            \<and> room_of (rooms (fst (p0_on_close ws s))) ws = None
            \<and> p0_on_message ws (Some m) s =
                Inr (fst (join_outside ws code (fst (p0_on_close ws s))),
                     snd (p0_on_close ws s) @ snd (join_outside ws code (fst (p0_on_close ws s))))
            \<and> map_of (rooms (fst (join_outside ws code (fst (p0_on_close ws s))))) old
                = (if clients (evict ws r) = [] then None else Some (evict ws r))
            \<and> (\<forall>c. c \<noteq> old \<and> c \<noteq> code
                  \<longrightarrow> map_of (rooms (fst (join_outside ws code (fst (p0_on_close ws s))))) c
                      = map_of (rooms s) c)
            \<and> (if target_full (rooms s) code
                then join_outside ws code (fst (p0_on_close ws s))
                       = (fst (p0_on_close ws s), [Send ws (ErrorMsg room_full)])
                else member_of (rooms (fst (join_outside ws code (fst (p0_on_close ws s))))) code ws))
       \<and> (get_prop (units ''room'') m = Some (JStr code)
          \<longrightarrow> srv_on_message ws' (Some m) s' = Inr (srv_join ws' code s')
            \<and> map_of (rooms (fst (srv_join ws' code s'))) old = map_of (rooms s') old
            \<and> (\<forall>c x. Send c (PeerLeft x) \<notin> set (snd (srv_join ws' code s'))))"
proof -
  have p0: "p0_on_close ws s =
                (s\<lparr>rooms := (if clients (evict ws r) = [] then AList.delete old (rooms s)
                              else AList.update old (evict ws r) (rooms s))\<rparr>,
                 broadcast (objs s) (evict ws r) (PeerLeft (Some old)) None)
            \<and> room_of (rooms (fst (p0_on_close ws s))) ws = None
            \<and> p0_on_message ws (Some m) s =
                Inr (fst (join_outside ws code (fst (p0_on_close ws s))),
                     snd (p0_on_close ws s) @ snd (join_outside ws code (fst (p0_on_close ws s))))
            \<and> map_of (rooms (fst (join_outside ws code (fst (p0_on_close ws s))))) old
                = (if clients (evict ws r) = [] then None else Some (evict ws r))
            \<and> (\<forall>c. c \<noteq> old \<and> c \<noteq> code
                  \<longrightarrow> map_of (rooms (fst (join_outside ws code (fst (p0_on_close ws s))))) c
                      = map_of (rooms s) c)
            \<and> (if target_full (rooms s) code
                then join_outside ws code (fst (p0_on_close ws s))
                       = (fst (p0_on_close ws s), [Send ws (ErrorMsg room_full)])
                else member_of (rooms (fst (join_outside ws code (fst (p0_on_close ws s))))) code ws)"
    if ok: "registry_ok (rooms s)" and sg: "single_room (rooms s)"
      and old: "map_of (rooms s) old = Some r" "ws \<in> set (clients r)"
      and rm: "String_or_empty (get_prop (units ''room'') m) = Inr str" "trim str = code"
  proof -
    define s1 where "s1 = fst (p0_on_close ws s)"
    have tgt: "map_of (rooms s1) code = map_of (rooms s) code"
      unfolding s1_def by (rule p0_on_close_other[OF ok sg old assms(3)])
    have tf: "target_full (rooms s1) code = target_full (rooms s) code"
      by (simp add: target_full_def tgt)
    have a: "p0_on_close ws s =
                (s\<lparr>rooms := (if clients (evict ws r) = [] then AList.delete old (rooms s)
                              else AList.update old (evict ws r) (rooms s))\<rparr>,
                 broadcast (objs s) (evict ws r) (PeerLeft (Some old)) None)"
      by (rule p0_on_close_member[OF ok sg old])
    have b: "room_of (rooms s1) ws = None"
      unfolding s1_def by (rule p0_on_close_ok(2)[OF ok sg])
    have c: "p0_on_message ws (Some m) s =
                Inr (fst (join_outside ws code s1), snd (p0_on_close ws s) @ snd (join_outside ws code s1))"
      using p0_on_message_join[OF assms(1) rm(1), of ws s] rm(2) assms(2)
            p0_rejoin[OF ok sg old assms(3)]
      by (simp add: s1_def)
    have d: "map_of (rooms (fst (join_outside ws code s1))) old
                = (if clients (evict ws r) = [] then None else Some (evict ws r))"
      using join_outside_other[of old code ws s1] assms(3) p0_on_close_old[OF ok sg old]
      by (simp add: s1_def)
    have e: "map_of (rooms (fst (join_outside ws code s1))) c = map_of (rooms s) c"
      if "c \<noteq> old" "c \<noteq> code" for c
      using join_outside_other[OF that(2), of ws s1] p0_on_close_other[OF ok sg old that(1)]
      by (simp add: s1_def)
    have f: "if target_full (rooms s) code
                then join_outside ws code s1 = (s1, [Send ws (ErrorMsg room_full)])
                else member_of (rooms (fst (join_outside ws code s1))) code ws"
      using join_outside_full[of s1 code ws] join_outside_member[of s1 code ws]
      by (simp add: tf)
    from a b c d e f show ?thesis unfolding s1_def by blast
  qed
  have g: "srv_on_message ws' (Some m) s' = Inr (srv_join ws' code s')"
    if "get_prop (units ''room'') m = Some (JStr code)"
    by (rule srv_on_message_join[OF assms(1) that assms(2)])
  have h: "map_of (rooms (fst (srv_join ws' code s'))) old = map_of (rooms s') old"
    using srv_join_other[of old code ws' s'] assms(3) by simp
  from p0 g h srv_join_no_peer_left[of _ _ ws' code s']
  show ?thesis by blast
qed

theorem join_from_other_room_witness:
  "(\<exists>s acts s'.
      p0_run [Connection, Connection, Message 0 (Some (join_msg (units ''abc''))),
              Message 1 (Some (join_msg (units ''abc'')))] = Some (s, acts)
      \<and> registry_ok (rooms s) \<and> single_room (rooms s)
      \<and> p0_on_message 0 (Some (join_msg (units ''xyz''))) s
          = Inr (s', [Send 1 (PeerLeft (Some (units ''abc''))),
                      Send 0 (Joined (units ''xyz'') (Some SideX))])
      \<and> rooms s' = [(units ''abc'', \<lparr>clients = [1], sides = [(1, Some SideO)]\<rparr>),
                     (units ''xyz'', \<lparr>clients = [0], sides = [(0, Some SideX)]\<rparr>)])
   \<and> (\<exists>s acts.
      srv_run [Connection, Connection, Message 0 (Some (join_msg (units ''abc''))),
               Message 1 (Some (join_msg (units ''abc''))),
               Message 0 (Some (join_msg (units ''xyz'')))] = Some (s, acts)
      \<and> \<not> single_room (rooms s)
      \<and> map_of (rooms s) (units ''abc'')
          = Some \<lparr>clients = [0, 1], sides = [(0, Some SideX), (1, Some SideO)]\<rparr>
      \<and> srv_on_message 1 (Some (join_msg (units ''pqr''))) s
          = Inr (srv_join 1 (units ''pqr'') s)
      \<and> map_of (rooms (fst (srv_join 1 (units ''pqr'') s))) (units ''abc'')
          = Some \<lparr>clients = [0, 1], sides = [(0, Some SideX), (1, Some SideO)]\<rparr>
      \<and> received 0 (snd (srv_join 1 (units ''pqr'') s)) = [])"
proof -
  let ?evs = "[Connection, Connection, Message 0 (Some (join_msg (units ''abc''))),
              Message 1 (Some (join_msg (units ''abc'')))]"
  let ?r = "\<lparr>clients = [0, 1], sides = [(0, Some SideX), (1, Some SideO)]\<rparr>"
  let ?m = "join_msg (units ''xyz'')"
  let ?m' = "join_msg (units ''pqr'')"
  have t: "get_prop (units ''t'') (join_msg c) = Some (JStr (units ''join''))" for c
    by (simp add: join_msg_def units_def)
  have ne: "units ''xyz'' \<noteq> []" "units ''xyz'' \<noteq> units ''abc''" by (simp_all add: units_def)
  have ne': "units ''pqr'' \<noteq> []" "units ''pqr'' \<noteq> units ''abc''" by (simp_all add: units_def)
  have rm: "get_prop (units ''room'') (join_msg c) = Some (JStr c)" for c
    by (simp add: join_msg_def units_def)
  have st: "String_or_empty (get_prop (units ''room'') ?m) = Inr (units ''xyz'')
            \<and> trim (units ''xyz'') = units ''xyz''"
    by (simp add: eval_defs)
  obtain s acts where run: "p0_run ?evs = Some (s, acts)"
    and ok: "registry_ok (rooms s)" and sg: "single_room (rooms s)"
    and r: "map_of (rooms s) (units ''abc'') = Some ?r"
    and rs: "rooms s = [(units ''abc'', ?r)]"
    and op: "is_open (objs s) 0" "is_open (objs s) 1"
    by (simp add: eval_defs registry_ok_def room_ok_def single_room_def)
  have in0: "0 \<in> set (clients ?r)" by simp
  from join_from_other_room[OF t[of "units ''xyz''"] ne,
      where str = "units ''xyz''" and s = s and r = ?r and ws = 0] st ok sg r in0
  have msg: "p0_on_message 0 (Some ?m) s =
                Inr (fst (join_outside 0 (units ''xyz'') (fst (p0_on_close 0 s))),
                     snd (p0_on_close 0 s) @ snd (join_outside 0 (units ''xyz'') (fst (p0_on_close 0 s))))"
    and cl: "p0_on_close 0 s =
                (s\<lparr>rooms := (if clients (evict 0 ?r) = [] then AList.delete (units ''abc'') (rooms s)
                              else AList.update (units ''abc'') (evict 0 ?r) (rooms s))\<rparr>,
                 broadcast (objs s) (evict 0 ?r) (PeerLeft (Some (units ''abc''))) None)"
    by simp_all
  have cl': "p0_on_close 0 s
              = (s\<lparr>rooms := [(units ''abc'', \<lparr>clients = [1], sides = [(1, Some SideO)]\<rparr>)]\<rparr>,
                 [Send 1 (PeerLeft (Some (units ''abc'')))])"
    unfolding cl using op by (simp add: rs evict_def broadcast_def)
  have 1: "p0_on_message 0 (Some ?m) s
          = Inr (s\<lparr>rooms := [(units ''abc'', \<lparr>clients = [1], sides = [(1, Some SideO)]\<rparr>),
                     (units ''xyz'', \<lparr>clients = [0], sides = [(0, Some SideX)]\<rparr>)]\<rparr>,
                 [Send 1 (PeerLeft (Some (units ''abc''))),
                  Send 0 (Joined (units ''xyz'') (Some SideX))])"
    unfolding msg cl' using ne
    by (simp add: join_outside_def admit_def empty_room_def set_add_def chooseSide_def units_def)
  obtain s' acts' where run': "srv_run (?evs @ [Message 0 (Some ?m)]) = Some (s', acts')"
    and nsg: "\<not> single_room (rooms s')"
    and r': "map_of (rooms s') (units ''abc'') = Some ?r"
    by (simp add: eval_defs single_room_def)
  from join_from_other_room[OF t[of "units ''pqr''"] ne', where s' = s' and ws' = 1] rm r'
  have 2: "srv_on_message 1 (Some ?m') s' = Inr (srv_join 1 (units ''pqr'') s')"
    and 3: "map_of (rooms (fst (srv_join 1 (units ''pqr'') s'))) (units ''abc'') = Some ?r"
    and 4: "\<forall>c x. Send c (PeerLeft x) \<notin> set (snd (srv_join 1 (units ''pqr'') s'))"
    by simp_all
  have 5: "received 0 (snd (srv_join 1 (units ''pqr'') s')) = []"
    using run' by (auto simp add: eval_defs)
  from run ok sg 1 have A: "\<exists>s acts s'.
      p0_run ?evs = Some (s, acts)
      \<and> registry_ok (rooms s) \<and> single_room (rooms s)
      \<and> p0_on_message 0 (Some ?m) s
          = Inr (s', [Send 1 (PeerLeft (Some (units ''abc''))),
                      Send 0 (Joined (units ''xyz'') (Some SideX))])
      \<and> rooms s' = [(units ''abc'', \<lparr>clients = [1], sides = [(1, Some SideO)]\<rparr>),
                     (units ''xyz'', \<lparr>clients = [0], sides = [(0, Some SideX)]\<rparr>)]"
    by force
  from run' nsg r' 2 3 5 have B: "\<exists>s acts.
      srv_run (?evs @ [Message 0 (Some ?m)]) = Some (s, acts)
      \<and> \<not> single_room (rooms s)
      \<and> map_of (rooms s) (units ''abc'') = Some ?r
      \<and> srv_on_message 1 (Some ?m') s = Inr (srv_join 1 (units ''pqr'') s)
      \<and> map_of (rooms (fst (srv_join 1 (units ''pqr'') s))) (units ''abc'') = Some ?r
      \<and> received 0 (snd (srv_join 1 (units ''pqr'') s)) = []"
    by blast
  from A B show ?thesis by simp
qed

end
